theory Spec2Isabelle
  imports Main "HOL-Library.Char_ord" "HOL-Library.List_Lexorder" "HOL-Library.Extended_Nat"
begin

section \<open>JavaScript strings\<close>

text \<open>
  A JavaScript string is a sequence of UTF-16 code units. The model uses \<^typ>\<open>string\<close>,
  whose characters are the code units U+0000 to U+00FF; \<open>of_char\<close> reads the code unit.
  Within that range the white space of \<open>String.prototype.trim\<close> and of the regular
  expression class \<open>\s\<close> is TAB, LF, VT, FF, CR, SPACE and NO-BREAK SPACE, and
  \<open>toLowerCase\<close> moves \<open>A-Z\<close> and the upper-case letters of Latin-1 up by 32.
\<close>

definition isWhiteSpace :: "char \<Rightarrow> bool" where
  "isWhiteSpace c = (of_char c \<in> {9, 10, 11, 12, 13, 32, 160 :: nat})"

definition isUpperCase :: "char \<Rightarrow> bool" where
  "isUpperCase c = (let n = of_char c :: nat in
     (65 \<le> n \<and> n \<le> 90) \<or> (192 \<le> n \<and> n \<le> 214) \<or> (216 \<le> n \<and> n \<le> 222))"

definition toLowerChar :: "char \<Rightarrow> char" where
  "toLowerChar c = (if isUpperCase c then char_of (of_char c + 32 :: nat) else c)"

definition toLowerCase :: "string \<Rightarrow> string" where
  "toLowerCase s = map toLowerChar s"

definition trim :: "string \<Rightarrow> string" where
  "trim s = rev (dropWhile isWhiteSpace (rev (dropWhile isWhiteSpace s)))"

text \<open>\<open>s.startsWith(searchString)\<close>; \<open>s.startsWith(searchString, i)\<close> is
  \<open>startsWith (drop i s) searchString\<close>.\<close>

definition startsWith :: "string \<Rightarrow> string \<Rightarrow> bool" where
  "startsWith s searchString = (take (length searchString) s = searchString)"

text \<open>The word characters of the regular expression class \<open>\w\<close>: \<open>[A-Za-z0-9_]\<close>.\<close>

definition isWordChar :: "char \<Rightarrow> bool" where
  "isWordChar c = (let n = of_char c :: nat in
     (48 \<le> n \<and> n \<le> 57) \<or> (65 \<le> n \<and> n \<le> 90) \<or> n = 95 \<or> (97 \<le> n \<and> n \<le> 122))"

section \<open>command-manager.ts: the blocked set and the gate\<close>

text \<open>
  \<open>blockedCommands\<close> is a JavaScript \<open>Set\<close> of strings: it keeps its elements in
  insertion order and holds none twice. It is modelled as the list of its elements in
  that order; \<open>Set_has\<close>, \<open>Set_add\<close> and \<open>Set_delete\<close> are the three methods the
  class calls, and \<open>new_Set\<close> builds a set from an array.
\<close>

definition Set_has :: "string list \<Rightarrow> string \<Rightarrow> bool" where
  "Set_has s x = (x \<in> set s)"

definition Set_add :: "string list \<Rightarrow> string \<Rightarrow> string list" where
  "Set_add s x = (if x \<in> set s then s else s @ [x])"

definition Set_delete :: "string list \<Rightarrow> string \<Rightarrow> string list" where
  "Set_delete s x = removeAll x s"

definition new_Set :: "string list \<Rightarrow> string list" where
  "new_Set xs = foldl Set_add [] xs"

definition DEFAULT_BLOCKED_COMMANDS :: "string list" where
  "DEFAULT_BLOCKED_COMMANDS =
     [''format'', ''mount'', ''umount'', ''mkfs'', ''fdisk'', ''dd'', ''sudo'', ''su'',
      ''passwd'', ''adduser'', ''useradd'', ''usermod'', ''groupadd'']"

text \<open>The field initialiser \<open>new Set(DEFAULT_BLOCKED_COMMANDS)\<close>, which
  \<open>loadBlockedCommands\<close> assigns again at start.\<close>

definition initialBlockedCommands :: "string list" where
  "initialBlockedCommands = new_Set DEFAULT_BLOCKED_COMMANDS"

text \<open>\<open>command.split(' ')[0].toLowerCase().trim()\<close>: the part before the first SPACE
  (the whole string when it has none), lower-cased, then trimmed.\<close>

definition getBaseCommand :: "string \<Rightarrow> string" where
  "getBaseCommand command = trim (toLowerCase (takeWhile (\<lambda>c. c \<noteq> CHR '' '') command))"

definition validateCommand :: "string list \<Rightarrow> string \<Rightarrow> bool" where
  "validateCommand blockedCommands command =
     (let baseCommand = getBaseCommand command in \<not> Set_has blockedCommands baseCommand)"

text \<open>\<open>blockCommand\<close> and \<open>unblockCommand\<close> return their boolean together with the
  blocked set they leave behind; \<open>saveBlockedCommands\<close> only writes a log line.\<close>

definition blockCommand :: "string list \<Rightarrow> string \<Rightarrow> bool \<times> string list" where
  "blockCommand blockedCommands command0 =
     (let command = trim (toLowerCase command0) in
      if Set_has blockedCommands command then (False, blockedCommands)
      else (True, Set_add blockedCommands command))"

definition unblockCommand :: "string list \<Rightarrow> string \<Rightarrow> bool \<times> string list" where
  "unblockCommand blockedCommands command0 =
     (let command = trim (toLowerCase command0) in
      if \<not> Set_has blockedCommands command then (False, blockedCommands)
      else (True, Set_delete blockedCommands command))"

text \<open>\<open>Array.from(this.blockedCommands).sort()\<close>: the default comparison of
  \<open>Array.prototype.sort\<close> orders strings code unit by code unit, a proper prefix
  first, which is the lexicographic order on \<^typ>\<open>string\<close>.\<close>

definition listBlockedCommands :: "string list \<Rightarrow> string list" where
  "listBlockedCommands blockedCommands = sort blockedCommands"

section \<open>command-manager.ts: extracting the commands of a command line\<close>

text \<open>
  \<open>commandStr.replace(/\w+=\S+\s*/g, '')\<close>. At a position the pattern matches a
  non-empty run of word characters, then \<open>=\<close>, then a non-empty run of characters that
  are not white space, then the white space that follows; every quantifier is greedy and
  no shorter choice can match where the longest fails, since the character after a
  shortened run of word characters is a word character, not \<open>=\<close>. \<open>matchEnvVar s\<close>
  is the text after a match that starts at the head of \<open>s\<close>. The global replacement
  scans from the left, removes a match where there is one and goes on behind it, and
  keeps the character otherwise.
\<close>

definition matchEnvVar :: "string \<Rightarrow> string option" where
  "matchEnvVar s =
     (if takeWhile isWordChar s = [] then None
      else (case dropWhile isWordChar s of
              [] \<Rightarrow> None
            | c # afterEq \<Rightarrow>
                if c \<noteq> CHR ''='' \<or> takeWhile (\<lambda>c. \<not> isWhiteSpace c) afterEq = [] then None
                else Some (dropWhile isWhiteSpace (dropWhile (\<lambda>c. \<not> isWhiteSpace c) afterEq))))"

lemma matchEnvVar_shorter: "matchEnvVar s = Some r \<Longrightarrow> length r < length s"
proof -
  assume a: "matchEnvVar s = Some r"
  have d: "\<And>P (xs :: string). length (dropWhile P xs) \<le> length xs"
    by (simp add: length_dropWhile_le)
  from a obtain c afterEq where 1: "dropWhile isWordChar s = c # afterEq"
    and 2: "r = dropWhile isWhiteSpace (dropWhile (\<lambda>c. \<not> isWhiteSpace c) afterEq)"
    by (auto simp: matchEnvVar_def split: if_splits list.splits)
  have "length r \<le> length afterEq" unfolding 2
    by (meson d le_trans)
  moreover have "length (c # afterEq) \<le> length s" using d[of isWordChar s] 1 by simp
  ultimately show ?thesis by simp
qed

function removeEnvVars :: "string \<Rightarrow> string" where
  "removeEnvVars [] = []"
| "removeEnvVars (c # cs) =
     (case matchEnvVar (c # cs) of
        Some rest \<Rightarrow> removeEnvVars rest
      | None \<Rightarrow> c # removeEnvVars cs)"
  by pat_completeness auto
termination
  by (relation "measure length") (auto dest: matchEnvVar_shorter)

text \<open>
  \<open>extractBaseCommand\<close>; \<open>None\<close> is \<open>null\<close>. \<open>withoutEnvVars\<close> is trimmed and not
  empty where the tokens are taken, so \<open>tokens[0]\<close> of \<open>split(/\s+/)\<close> is its part
  before the first white space. The \<open>try\<close> has nothing to catch: no call in it throws
  on a string.
\<close>

definition extractBaseCommand :: "string \<Rightarrow> string option" where
  "extractBaseCommand commandStr =
     (let withoutEnvVars = trim (removeEnvVars commandStr) in
      if withoutEnvVars = [] then None
      else (let firstToken = takeWhile (\<lambda>c. \<not> isWhiteSpace c) withoutEnvVars in
            case firstToken of
              [] \<Rightarrow> Some []
            | c # _ \<Rightarrow>
                if c = CHR ''('' \<or> c = CHR ''$'' then None else Some (toLowerCase firstToken)))"

text \<open>
  The state of the scanning loop of \<open>extractCommands\<close>. \<open>quoteChar\<close> is a string as in
  the source: empty outside quotes, the one quote character inside.
\<close>

record scanner =
  inQuote :: bool
  quoteChar :: string
  currentCmd :: string
  escaped :: bool
  commands :: "string list"

definition initialScanner :: scanner where
  "initialScanner =
     \<lparr>inQuote = False, quoteChar = [], currentCmd = [], escaped = False, commands = []\<rparr>"

definition separators :: "string list" where
  "separators = ['';'', ''&&'', ''||'', ''|'', ''&'']"

text \<open>The inner \<open>for (const separator of separators)\<close>: the first separator of the
  list that the unread text starts with.\<close>

fun findSeparator :: "string list \<Rightarrow> string \<Rightarrow> string option" where
  "findSeparator [] s = None"
| "findSeparator (separator # others) s =
     (if startsWith s separator then Some separator else findSeparator others s)"

text \<open>
  The \<open>while (j < commandString.length && openParens > 0)\<close> loop, run on the text
  behind the opening parenthesis at \<open>i\<close>: \<open>closeParen 1 rest\<close> is \<open>j - (i + 1)\<close>, the
  number of characters the loop passes. The test \<open>j <= commandString.length\<close> that
  follows the loop is \<open>closeParen 1 rest \<le> length rest\<close>; it never fails
  (\<open>closeParen_le\<close> below).
\<close>

fun closeParen :: "nat \<Rightarrow> string \<Rightarrow> nat" where
  "closeParen openParens [] = 0"
| "closeParen openParens (c # cs) =
     (if 0 < openParens
      then Suc (closeParen
                  (if c = CHR ''('' then openParens + 1
                   else if c = CHR '')'' then openParens - 1 else openParens) cs)
      else 0)"

text \<open>
  \<open>commandString.substring(i + 1, j - 1)\<close>. When the parenthesis is the last
  character, \<open>j = i + 1\<close> and \<open>substring\<close> swaps its arguments: the result is
  \<open>substring(i, i + 1)\<close>, the parenthesis itself.
\<close>

definition subshellContent :: "string \<Rightarrow> string" where
  "subshellContent rest =
     (if closeParen 1 rest = 0 then ''('' else take (closeParen 1 rest - 1) rest)"

text \<open>Closing a segment: \<open>if (currentCmd.trim()) { ... if (baseCommand)
  commands.push(baseCommand) }\<close>; the result is the new \<open>commands\<close>.\<close>

definition pushBaseCommand :: "scanner \<Rightarrow> string list" where
  "pushBaseCommand st =
     (if trim (currentCmd st) \<noteq> []
      then (case extractBaseCommand (trim (currentCmd st)) of
              Some baseCommand \<Rightarrow>
                if baseCommand \<noteq> [] then commands st @ [baseCommand] else commands st
            | None \<Rightarrow> commands st)
      else commands st)"

text \<open>
  A call that finds the call stack exhausted throws a \<open>RangeError\<close>.
\<close>

datatype js_error = RangeError

text \<open>
  The \<open>for\<close> loop of \<open>extractCommands\<close> and the code behind it up to the last
  \<open>push\<close>. The loop variable \<open>i\<close> is kept as the unread text \<open>char # rest\<close>, which is
  \<open>commandString\<close> from \<open>i\<close> on; \<open>rec\<close> is the recursive call
  \<open>this.extractCommands\<close>, whose exception leaves the loop.
\<close>

function scanCommands ::
  "(string \<Rightarrow> js_error + string list) \<Rightarrow> scanner \<Rightarrow> string \<Rightarrow> js_error + string list" where
  "scanCommands rec st [] = Inr (pushBaseCommand st)"
| "scanCommands rec st (char # rest) =
     (if char = CHR 0x5C \<and> \<not> escaped st
      then scanCommands rec (st\<lparr>escaped := True, currentCmd := currentCmd st @ [char]\<rparr>) rest
      else if escaped st
      then scanCommands rec (st\<lparr>escaped := False, currentCmd := currentCmd st @ [char]\<rparr>) rest
      else if (char = CHR 0x22 \<or> char = CHR 0x27) \<and> \<not> inQuote st
      then scanCommands rec
             (st\<lparr>inQuote := True, quoteChar := [char], currentCmd := currentCmd st @ [char]\<rparr>)
             rest
      else if [char] = quoteChar st \<and> inQuote st
      then scanCommands rec
             (st\<lparr>inQuote := False, quoteChar := [], currentCmd := currentCmd st @ [char]\<rparr>)
             rest
      else if inQuote st
      then scanCommands rec (st\<lparr>currentCmd := currentCmd st @ [char]\<rparr>) rest
      else if char = CHR ''('' \<and> closeParen 1 rest \<le> length rest
      then (case rec (subshellContent rest) of
              Inl error \<Rightarrow> Inl error
            | Inr subCommands \<Rightarrow>
                scanCommands rec (st\<lparr>commands := commands st @ subCommands\<rparr>)
                  (drop (closeParen 1 rest) rest))
      else (case findSeparator separators (char # rest) of
              Some separator \<Rightarrow>
                scanCommands rec (st\<lparr>commands := pushBaseCommand st, currentCmd := []\<rparr>)
                  (drop (length separator - 1) rest)
            | None \<Rightarrow> scanCommands rec (st\<lparr>currentCmd := currentCmd st @ [char]\<rparr>) rest))"
  by pat_completeness auto
termination
  by (relation "measure (\<lambda>(rec, st, s). length s)") auto

text \<open>
  \<open>extractCommands\<close>. The function calls itself on the text of a subshell, and on a
  command that ends in an unquoted opening parenthesis it calls itself on \<open>(\<close>
  without end; the first argument is the number of calls of \<open>extractCommands\<close> the call
  stack still holds, and a call made when it holds none throws. The \<open>catch\<close> of the
  caller reports the event through \<open>capture\<close> and turns the exception into the
  one-element answer; \<open>commandString\<close> is the trimmed text there, the \<open>try\<close> having
  assigned it.
\<close>

primrec extractCommands :: "nat \<Rightarrow> string \<Rightarrow> js_error + string list" where
  "extractCommands 0 = (\<lambda>commandString. Inl RangeError)"
| "extractCommands (Suc depth) = (\<lambda>commandString.
     (case scanCommands (extractCommands depth) initialScanner (trim commandString) of
        Inl error \<Rightarrow> Inr [getBaseCommand (trim commandString)]
      | Inr cmds \<Rightarrow> Inr (new_Set cmds)))"

subsection \<open>Notions for stating the properties of the scan\<close>

text \<open>
  An ordinary character is one the loop copies into the current segment whatever the
  state: not a backslash, a quote, an opening parenthesis or a character a separator
  starts with.
\<close>

definition ordinary :: "char \<Rightarrow> bool" where
  "ordinary c =
     (c \<notin> {CHR 0x5C, CHR 0x22, CHR 0x27, CHR ''('', CHR '';'', CHR ''&'', CHR ''|''})"

text \<open>The commands a closed segment adds: none or one.\<close>

definition segmentCommand :: "string \<Rightarrow> string list" where
  "segmentCommand segment = pushBaseCommand (initialScanner\<lparr>currentCmd := segment\<rparr>)"

text \<open>A command line written as segments, each followed by its separator, and a
  final segment.\<close>

fun joinSegments :: "(string \<times> string) list \<Rightarrow> string \<Rightarrow> string" where
  "joinSegments [] final = final"
| "joinSegments ((segment, separator) # parts) final =
     segment @ separator @ joinSegments parts final"

text \<open>
  \<open>nesting d s\<close> counts parentheses as the loop behind \<open>closeParen\<close> does: the depth
  after \<open>s\<close> when the depth before it is \<open>d\<close>, and \<open>None\<close> when a closing parenthesis
  of \<open>s\<close> has no partner. A text is balanced when it closes every parenthesis it opens
  and no other; the text between a parenthesis and its partner is balanced.
\<close>

fun nesting :: "nat \<Rightarrow> string \<Rightarrow> nat option" where
  "nesting d [] = Some d"
| "nesting d (c # cs) =
     (if c = CHR ''('' then nesting (Suc d) cs
      else if c = CHR '')'' then (case d of 0 \<Rightarrow> None | Suc d' \<Rightarrow> nesting d' cs)
      else nesting d cs)"

definition balanced :: "string \<Rightarrow> bool" where
  "balanced s = (nesting 0 s = Some 0)"

section \<open>tools/filesystem.ts: validating a path\<close>

text \<open>
  Node's \<open>path\<close> module, \<open>os.homedir()\<close>, \<open>process.cwd()\<close> and the promises of
  \<open>fs/promises\<close> belong to the platform, not to the repository. The functions of
  \<open>path\<close> that the file calls are the fields of a record the model takes as a
  parameter, so that every result below holds for the POSIX and the Windows flavour
  alike; \<open>path_resolve\<close> and \<open>path_join\<close> take the list of their arguments.
\<close>

record path_module =
  path_sep :: string
  path_normalize :: "string \<Rightarrow> string"
  path_isAbsolute :: "string \<Rightarrow> bool"
  path_resolve :: "string list \<Rightarrow> string"
  path_join :: "string list \<Rightarrow> string"
  path_dirname :: "string \<Rightarrow> string"

text \<open>
  The host: the home directory, the working directory and the file system. A promise
  of \<open>fs\<close> is fulfilled (\<open>Inr\<close>) or rejected (\<open>Inl\<close>); \<open>fs_settled_ms h p\<close> is the
  time in milliseconds after which the file system calls that the validation of the
  absolute path \<open>p\<close> awaits have all settled, \<open>\<infinity>\<close> when one of them never does.
\<close>

datatype fs_error = ENOENT | EACCES | ELOOP

record host =
  os_homedir :: string
  process_cwd :: string
  fs_stat :: "string \<Rightarrow> fs_error + unit"
  fs_realpath :: "string \<Rightarrow> fs_error + string"
  fs_settled_ms :: "string \<Rightarrow> enat"

definition normalizePath :: "path_module \<Rightarrow> string \<Rightarrow> string" where
  "normalizePath path p = toLowerCase (path_normalize path p)"

definition expandHome :: "path_module \<Rightarrow> host \<Rightarrow> string \<Rightarrow> string" where
  "expandHome path h filepath =
     (if startsWith filepath ''~/'' \<or> filepath = ''~''
      then path_join path [os_homedir h, drop 1 filepath]
      else filepath)"

text \<open>
  \<open>validateParentDirectories\<close> calls itself on the parent directory for as long as
  \<open>path.dirname\<close> keeps changing the path and \<open>fs.realpath\<close> keeps rejecting:
  \<open>None\<close> is the call that never returns.
\<close>

partial_function (option) validateParentDirectories ::
  "path_module \<Rightarrow> host \<Rightarrow> string \<Rightarrow> bool option" where
  "validateParentDirectories path h directoryPath =
     (let parentDir = path_dirname path directoryPath in
      if parentDir = directoryPath \<or> parentDir = path_dirname path parentDir then Some False
      else (case fs_realpath h parentDir of
              Inr resolved \<Rightarrow> Some True
            | Inl error \<Rightarrow> validateParentDirectories path h parentDir))"

text \<open>
  \<open>validatePath\<close> returns a string: the validated path, or one of two messages that
  start with \<open>__ERROR__:\<close>, ``Access denied. Path is not within allowed directories:''
  followed by the absolute path, and ``Path validation timed out after 10 seconds for:''
  followed by the requested path. The three kinds of result are the constructors of
  \<open>ValidationOutcome\<close>; \<open>TimedOut\<close> carries the budget in milliseconds.
\<close>

datatype ValidationOutcome =
    Resolved string
  | AccessDenied string
  | TimedOut string nat

definition PATH_VALIDATION_TIMEOUT :: nat where
  "PATH_VALIDATION_TIMEOUT = 10000"

text \<open>The constants \<open>absolute\<close> and \<open>isAllowed\<close> of \<open>validationOperation\<close>;
  \<open>allowedDirectories\<close> is the module's variable of that name.\<close>

definition absolute :: "path_module \<Rightarrow> host \<Rightarrow> string \<Rightarrow> string" where
  "absolute path h requestedPath =
     (let expandedPath = expandHome path h requestedPath in
      if path_isAbsolute path expandedPath then path_resolve path [expandedPath]
      else path_resolve path [process_cwd h, expandedPath])"

definition isAllowed :: "path_module \<Rightarrow> string list \<Rightarrow> string \<Rightarrow> bool" where
  "isAllowed path allowedDirectories p =
     (\<exists>dir \<in> set allowedDirectories.
        let normalizedDir = normalizePath path dir;
            normalizedPath = normalizePath path p
        in normalizedPath = normalizedDir
           \<or> startsWith normalizedPath (normalizedDir @ path_sep path))"

text \<open>
  A promise is the time at which it settles together with its value, or \<open>None\<close> when
  it never settles. \<open>validationOperation\<close> returns before its first \<open>await\<close> when it
  denies the path, and every rejection of \<open>fs.stat\<close> and \<open>fs.realpath\<close> is caught:
  its promise is never rejected.
\<close>

type_synonym 'a promise = "(enat \<times> 'a) option"

definition validationOperation ::
  "path_module \<Rightarrow> host \<Rightarrow> string list \<Rightarrow> string \<Rightarrow> ValidationOutcome promise" where
  "validationOperation path h allowedDirectories requestedPath =
     (if \<not> isAllowed path allowedDirectories (absolute path h requestedPath)
      then Some (0, AccessDenied (absolute path h requestedPath))
      else (case (case fs_stat h (absolute path h requestedPath) of
                    Inl error \<Rightarrow> Inl error
                  | Inr stats \<Rightarrow> fs_realpath h (absolute path h requestedPath)) of
              Inr resolved \<Rightarrow>
                Some (fs_settled_ms h (absolute path h requestedPath), Resolved resolved)
            | Inl error \<Rightarrow>
                (case validateParentDirectories path h (absolute path h requestedPath) of
                   None \<Rightarrow> None
                 | Some found \<Rightarrow>
                     if found
                     then Some (fs_settled_ms h (absolute path h requestedPath),
                                Resolved (absolute path h requestedPath))
                     else Some (fs_settled_ms h (absolute path h requestedPath),
                                Resolved (absolute path h requestedPath)))))"

text \<open>
  Modelled from the spec: \<open>withTimeout\<close> of the module \<open>utils\<close>, which the sources do
  not hold. The operation races against the timeout; if it does not complete in time the
  default value is returned and the operation is abandoned. \<open>None\<close> is \<open>null\<close>.
\<close>

definition withTimeout :: "'a promise \<Rightarrow> nat \<Rightarrow> string \<Rightarrow> 'a option \<Rightarrow> 'a option" where
  "withTimeout operation timeoutMs operationName defaultValue =
     (case operation of
        None \<Rightarrow> defaultValue
      | Some (settled, result) \<Rightarrow>
          if settled < enat timeoutMs then Some result else defaultValue)"

definition validatePath ::
  "path_module \<Rightarrow> host \<Rightarrow> string list \<Rightarrow> string \<Rightarrow> ValidationOutcome" where
  "validatePath path h allowedDirectories requestedPath =
     (case withTimeout (validationOperation path h allowedDirectories requestedPath)
             PATH_VALIDATION_TIMEOUT (''Path validation for '' @ requestedPath) None of
        None \<Rightarrow> TimedOut requestedPath PATH_VALIDATION_TIMEOUT
      | Some result \<Rightarrow> result)"

subsection \<open>A path module and hosts to run the model on\<close>

text \<open>
  \<open>dirname\<close> of Node's POSIX \<open>path\<close>: the path up to the last slash that stands
  before its last component, \<open>/\<close> or \<open>.\<close> when there is no such slash, and \<open>//\<close>
  when that slash is the second of two leading ones.
\<close>

definition posix_dirname :: "string \<Rightarrow> string" where
  "posix_dirname p =
     (if p = [] then ''.''
      else (let hasRoot = (hd p = CHR ''/'');
                end = length (dropWhile (\<lambda>c. c \<noteq> CHR ''/'')
                               (dropWhile (\<lambda>c. c = CHR ''/'') (rev (tl p))))
            in if end = 0 then (if hasRoot then ''/'' else ''.'')
               else if hasRoot \<and> end = 1 then ''//''
               else take end p))"

text \<open>
  \<open>posix\<close> is Node's POSIX \<open>path\<close> on paths that are already normalised (no empty,
  \<open>.\<close> or \<open>..\<close> component and no trailing slash), where \<open>normalize\<close> changes nothing,
  \<open>resolve\<close> returns an absolute last argument as it is and puts the working directory
  before a relative one, and \<open>join\<close> concatenates the home directory and the
  rest of \<open>~/...\<close>.
\<close>

definition posix :: path_module where
  "posix =
     \<lparr>path_sep = ''/'',
      path_normalize = (\<lambda>p. p),
      path_isAbsolute = (\<lambda>p. startsWith p ''/''),
      path_resolve = (\<lambda>ps. case ps of
                            [p] \<Rightarrow> p
                          | [d, p] \<Rightarrow> d @ ''/'' @ p
                          | _ \<Rightarrow> concat ps),
      path_join = concat,
      path_dirname = posix_dirname\<rparr>"

text \<open>
  A host to run the model on, with \<open>/sandbox\<close> as the allowed directory. It holds
  the directory \<open>/sandbox\<close>, the file \<open>/etc/passwd\<close> and the symbolic link
  \<open>/sandbox/link\<close> to that file; its file system calls settle after three
  milliseconds.
\<close>

definition sandbox_exists :: "string \<Rightarrow> bool" where
  "sandbox_exists p = (p \<in> {''/'', ''/sandbox'', ''/sandbox/link'', ''/etc'', ''/etc/passwd''})"

definition sandbox_host :: host where
  "sandbox_host =
     \<lparr>os_homedir = ''/home/user'',
      process_cwd = ''/sandbox'',
      fs_stat = (\<lambda>p. if sandbox_exists p then Inr () else Inl ENOENT),
      fs_realpath = (\<lambda>p. if p = ''/sandbox/link'' then Inr ''/etc/passwd''
                          else if sandbox_exists p then Inr p else Inl ENOENT),
      fs_settled_ms = (\<lambda>p. 3)\<rparr>"

text \<open>The same host on a file system whose calls never settle.\<close>

definition stalled_host :: host where
  "stalled_host = sandbox_host\<lparr>fs_settled_ms := (\<lambda>p. \<infinity>)\<rparr>"

text \<open>The same host on a file system whose calls settle after fifteen seconds.\<close>

definition slow_host :: host where
  "slow_host = sandbox_host\<lparr>fs_settled_ms := (\<lambda>p. 15000)\<rparr>"

section \<open>Facts about the string functions\<close>

lemma isWhiteSpace_toLowerChar [simp]: "isWhiteSpace (toLowerChar c) = isWhiteSpace c"
  by (auto simp: isWhiteSpace_def toLowerChar_def isUpperCase_def Let_def)

lemma isWhiteSpace_space [simp]: "isWhiteSpace (CHR '' '')"
  by (simp add: isWhiteSpace_def)

lemma trim_no_edge_space:
  assumes "s \<noteq> []" "\<not> isWhiteSpace (hd s)" "\<not> isWhiteSpace (last s)"
  shows "trim s = s"
proof -
  have 1: "dropWhile isWhiteSpace s = s" using assms(1,2) by (cases s) auto
  have "rev s \<noteq> []" "\<not> isWhiteSpace (hd (rev s))" using assms by (auto simp: hd_rev)
  then have 2: "dropWhile isWhiteSpace (rev s) = rev s" by (cases "rev s") auto
  show ?thesis by (simp add: trim_def 1 2)
qed

lemma getBaseCommand_prefix:
  "getBaseCommand (takeWhile (\<lambda>c. c \<noteq> CHR '' '') command) = getBaseCommand command"
  by (simp add: getBaseCommand_def)

lemma set_Set_add: "set (Set_add s x) = insert x (set s)"
  by (auto simp: Set_add_def)

lemma set_Set_delete: "set (Set_delete s x) = set s - {x}"
  by (auto simp: Set_delete_def)

lemma toLowerChar_space_iff: "(toLowerChar c = CHR '' '') = (c = CHR '' '')"
proof -
  have "((of_char (toLowerChar c) :: nat) = 32) = ((of_char c :: nat) = 32)"
    by (auto simp: toLowerChar_def isUpperCase_def Let_def)
  moreover have "(of_char (CHR '' '') :: nat) = 32" by simp
  ultimately show ?thesis by (metis of_char_eq_iff)
qed

lemma toLowerChar_idem: "toLowerChar (toLowerChar c) = toLowerChar c"
  by (auto simp: toLowerChar_def isUpperCase_def Let_def)

lemma toLowerCase_idem: "toLowerCase (toLowerCase s) = toLowerCase s"
  by (induction s) (simp_all add: toLowerCase_def toLowerChar_idem)

lemma toLowerCase_trim: "toLowerCase (trim s) = trim (toLowerCase s)"
  by (simp add: trim_def toLowerCase_def rev_map dropWhile_map comp_def)

lemma takeWhile_toLowerCase:
  "takeWhile (\<lambda>c. c \<noteq> CHR '' '') (toLowerCase s) = toLowerCase (takeWhile (\<lambda>c. c \<noteq> CHR '' '') s)"
  by (induction s) (simp_all add: toLowerCase_def toLowerChar_space_iff)

lemma getBaseCommand_toLowerCase: "getBaseCommand (toLowerCase command) = getBaseCommand command"
  by (simp add: getBaseCommand_def takeWhile_toLowerCase toLowerCase_idem)

lemma trim_no_space:
  assumes "\<forall>c\<in>set s. \<not> isWhiteSpace c"
  shows "trim s = s"
proof (cases "s = []")
  case True
  then show ?thesis by (simp add: trim_def)
next
  case False
  then have "hd s \<in> set s" "last s \<in> set s" by simp_all
  then show ?thesis using assms False by (intro trim_no_edge_space) auto
qed

lemma trim_trailing_space:
  assumes "\<forall>c\<in>set s. \<not> isWhiteSpace c" "\<forall>c\<in>set sp. isWhiteSpace c"
  shows "trim (s @ sp) = s"
proof (cases "s = []")
  case True
  have d: "dropWhile isWhiteSpace sp = []" using assms(2) by simp
  show ?thesis by (simp only: True trim_def append_Nil d rev.simps dropWhile.simps)
next
  case False
  then have h: "\<not> isWhiteSpace (hd s)" "\<not> isWhiteSpace (last s)" using assms(1) by auto
  have 1: "dropWhile isWhiteSpace (s @ sp) = s @ sp" using False h(1) by (cases s) auto
  have "dropWhile isWhiteSpace (rev sp @ rev s) = dropWhile isWhiteSpace (rev s)"
    by (rule dropWhile_append2) (use assms(2) in auto)
  also have "\<dots> = rev s" using False h(2) by (cases "rev s") (auto simp: hd_rev)
  finally show ?thesis by (simp add: trim_def 1)
qed

lemma getBaseCommand_name:
  assumes "\<forall>c\<in>set name. \<not> isWhiteSpace c"
  shows "getBaseCommand name = toLowerCase name"
    and "getBaseCommand (name @ CHR '' '' # rest) = toLowerCase name"
proof -
  have ns: "\<forall>c\<in>set name. c \<noteq> CHR '' ''" using assms by auto
  have tw1: "takeWhile (\<lambda>c. c \<noteq> CHR '' '') name = name"
    using ns by (simp add: takeWhile_eq_all_conv)
  have "takeWhile (\<lambda>c. c \<noteq> CHR '' '') (name @ CHR '' '' # rest)
          = takeWhile (\<lambda>c. c \<noteq> CHR '' '') name"
    by (rule takeWhile_tail) simp
  then have tw2: "takeWhile (\<lambda>c. c \<noteq> CHR '' '') (name @ CHR '' '' # rest) = name"
    by (simp add: tw1)
  have "\<forall>c\<in>set (toLowerCase name). \<not> isWhiteSpace c"
    using assms by (simp add: toLowerCase_def)
  then have tr: "trim (toLowerCase name) = toLowerCase name" by (rule trim_no_space)
  show "getBaseCommand name = toLowerCase name" by (simp only: getBaseCommand_def tw1 tr)
  show "getBaseCommand (name @ CHR '' '' # rest) = toLowerCase name"
    by (simp only: getBaseCommand_def tw2 tr)
qed

lemma getBaseCommand_trailing_space:
  assumes "\<forall>c\<in>set name. \<not> isWhiteSpace c" "isWhiteSpace w" "w \<noteq> CHR '' ''"
  shows "getBaseCommand (name @ [w]) = toLowerCase name"
    and "getBaseCommand (name @ w # CHR '' '' # rest) = toLowerCase name"
proof -
  let ?p = "name @ [w]"
  have ns: "\<forall>c\<in>set ?p. c \<noteq> CHR '' ''" using assms by auto
  have tw1: "takeWhile (\<lambda>c. c \<noteq> CHR '' '') ?p = ?p"
    using ns by (simp add: takeWhile_eq_all_conv)
  have "takeWhile (\<lambda>c. c \<noteq> CHR '' '') (?p @ CHR '' '' # rest)
          = takeWhile (\<lambda>c. c \<noteq> CHR '' '') ?p"
    by (rule takeWhile_tail) simp
  then have tw2: "takeWhile (\<lambda>c. c \<noteq> CHR '' '') (name @ w # CHR '' '' # rest) = ?p"
    by (simp add: tw1)
  have a: "\<forall>c\<in>set (toLowerCase name). \<not> isWhiteSpace c"
    using assms(1) by (simp add: toLowerCase_def)
  have b: "\<forall>c\<in>set [toLowerChar w]. isWhiteSpace c" using assms(2) by simp
  have "trim (toLowerCase name @ [toLowerChar w]) = toLowerCase name"
    using a b by (rule trim_trailing_space)
  then have tr: "trim (toLowerCase ?p) = toLowerCase name" by (simp add: toLowerCase_def)
  show "getBaseCommand (name @ [w]) = toLowerCase name" by (simp only: getBaseCommand_def tw1 tr)
  show "getBaseCommand (name @ w # CHR '' '' # rest) = toLowerCase name"
    by (simp only: getBaseCommand_def tw2 tr)
qed

section \<open>The gate\<close>

text \<open>
  C2. The gate \<open>validateCommand\<close> looks at the base command of the raw string only:
  it answers whether \<open>getBaseCommand\<close> of the command is outside the blocked set, and
  the text behind the first space of the command has no influence on the answer. The
  base command is in lower case and the case of the command's letters has no influence
  on it, nor on the answer of the gate; for a leading token that holds no white space
  the base command is that token in lower case, whatever follows the space behind it.
  With the default blocked set, \<open>sudo rm -rf /\<close> and \<open>SUDO rm -rf /\<close> are refused
  (their base command is \<open>sudo\<close>), while \<open>ls; sudo rm -rf /\<close> is allowed (its base
  command is \<open>ls;\<close>), although \<open>extractCommands\<close> finds \<open>sudo\<close> in it: the gate
  does not use the decomposition.
\<close>

theorem gate_reads_leading_token_only:
  "validateCommand blockedCommands command = (getBaseCommand command \<notin> set blockedCommands)
   \<and> validateCommand blockedCommands (takeWhile (\<lambda>c. c \<noteq> CHR '' '') command)
       = validateCommand blockedCommands command
   \<and> getBaseCommand (toLowerCase command) = getBaseCommand command
   \<and> toLowerCase (getBaseCommand command) = getBaseCommand command
   \<and> validateCommand blockedCommands (toLowerCase command)
       = validateCommand blockedCommands command
   \<and> ((\<forall>c\<in>set name. \<not> isWhiteSpace c)
      \<longrightarrow> getBaseCommand name = toLowerCase name
        \<and> getBaseCommand (name @ CHR '' '' # rest) = toLowerCase name
        \<and> validateCommand blockedCommands (name @ CHR '' '' # rest)
            = (toLowerCase name \<notin> set blockedCommands))
   \<and> getBaseCommand ''sudo rm -rf /'' = ''sudo''
   \<and> validateCommand initialBlockedCommands ''sudo rm -rf /'' = False
   \<and> getBaseCommand ''SUDO rm -rf /'' = ''sudo''
   \<and> validateCommand initialBlockedCommands ''SUDO rm -rf /'' = False
   \<and> getBaseCommand ''ls; sudo rm -rf /'' = ''ls;''
   \<and> validateCommand initialBlockedCommands ''ls; sudo rm -rf /'' = True
   \<and> extractCommands (Suc depth) ''ls; sudo rm -rf /'' = Inr [''ls'', ''sudo'']"
proof -
  have a: "validateCommand blockedCommands command
             = (getBaseCommand command \<notin> set blockedCommands)"
    by (simp add: validateCommand_def Set_has_def)
  have b: "validateCommand blockedCommands (takeWhile (\<lambda>c. c \<noteq> CHR '' '') command)
             = validateCommand blockedCommands command"
    by (simp add: validateCommand_def getBaseCommand_prefix)
  have l: "getBaseCommand (toLowerCase command) = getBaseCommand command"
    by (rule getBaseCommand_toLowerCase)
  have m: "toLowerCase (getBaseCommand command) = getBaseCommand command"
    by (simp add: getBaseCommand_def toLowerCase_trim toLowerCase_idem)
  have n: "validateCommand blockedCommands (toLowerCase command)
             = validateCommand blockedCommands command"
    by (simp add: validateCommand_def l)
  have k: "(\<forall>c\<in>set name. \<not> isWhiteSpace c)
      \<longrightarrow> getBaseCommand name = toLowerCase name
        \<and> getBaseCommand (name @ CHR '' '' # rest) = toLowerCase name
        \<and> validateCommand blockedCommands (name @ CHR '' '' # rest)
            = (toLowerCase name \<notin> set blockedCommands)"
    using getBaseCommand_name(1)[of name] getBaseCommand_name(2)[of name rest] by (simp add: validateCommand_def Set_has_def)
  have c: "getBaseCommand ''sudo rm -rf /'' = ''sudo''" by code_simp
  have d: "validateCommand initialBlockedCommands ''sudo rm -rf /'' = False" by code_simp
  have c': "getBaseCommand ''SUDO rm -rf /'' = ''sudo''" by code_simp
  have d': "validateCommand initialBlockedCommands ''SUDO rm -rf /'' = False" by code_simp
  have e: "getBaseCommand ''ls; sudo rm -rf /'' = ''ls;''" by code_simp
  have f: "validateCommand initialBlockedCommands ''ls; sudo rm -rf /'' = True" by code_simp
  have g: "extractCommands (Suc depth) ''ls; sudo rm -rf /'' = Inr [''ls'', ''sudo'']"
    by code_simp
  from a b l m n k c d c' d' e f g show ?thesis by blast
qed

text \<open>The leading token \<open>Sudo\<close>, alone and before \<open>rm -rf /\<close>, on the default
  blocked set.\<close>

theorem gate_reads_leading_token_only_witness:
  "getBaseCommand ''Sudo'' = ''sudo''
   \<and> getBaseCommand (''Sudo'' @ CHR '' '' # ''rm -rf /'') = ''sudo''
   \<and> validateCommand initialBlockedCommands (''Sudo'' @ CHR '' '' # ''rm -rf /'') = False"
proof -
  have 1: "\<forall>c\<in>set ''Sudo''. \<not> isWhiteSpace c" by code_simp
  have 2: "toLowerCase ''Sudo'' = ''sudo''" by code_simp
  have 3: "''sudo'' \<in> set initialBlockedCommands" by code_simp
  from gate_reads_leading_token_only [where name = "''Sudo''" and rest = "''rm -rf /''"
      and blockedCommands = initialBlockedCommands] 1 2 3
  show ?thesis by simp
qed

text \<open>
  C10, as the code has it. The base command is the text before the first space,
  lower-cased and then trimmed. When the executable name is followed by a white space
  character other than the space and that character ends the command or is directly
  followed by a space, \<open>trim\<close> removes it: the base command is the executable name in
  lower case, and the command is allowed exactly when that name is not blocked. When
  the white space character is followed by text that has no space in it and does not
  end in white space, it stays inside the base command, and the command is allowed
  whenever no blocked name holds white space, as is the case for the default set; it is
  allowed even when the executable name is blocked.
\<close>

theorem gate_splits_on_space_only:
  assumes name: "name \<noteq> []" "\<forall>c\<in>set name. \<not> isWhiteSpace c"
    and w: "isWhiteSpace w" "w \<noteq> CHR '' ''"
  shows "getBaseCommand (name @ [w]) = toLowerCase name
       \<and> getBaseCommand (name @ w # CHR '' '' # rest) = toLowerCase name
       \<and> validateCommand blockedCommands (name @ [w]) = (toLowerCase name \<notin> set blockedCommands)
       \<and> validateCommand blockedCommands (name @ w # CHR '' '' # rest)
           = (toLowerCase name \<notin> set blockedCommands)
       \<and> (arg \<noteq> [] \<and> CHR '' '' \<notin> set arg \<and> \<not> isWhiteSpace (last arg)
          \<and> (\<forall>b\<in>set blockedCommands. \<forall>c\<in>set b. \<not> isWhiteSpace c)
         \<longrightarrow> getBaseCommand (name @ w # arg) = toLowerCase (name @ w # arg)
           \<and> getBaseCommand (name @ w # arg @ CHR '' '' # rest) = toLowerCase (name @ w # arg)
           \<and> validateCommand blockedCommands (name @ w # arg)
           \<and> validateCommand blockedCommands (name @ w # arg @ CHR '' '' # rest))"
proof -
  note t = getBaseCommand_trailing_space(1)[OF name(2) w]
    getBaseCommand_trailing_space(2)[OF name(2) w, of rest]
  have trimmed: "getBaseCommand (name @ [w]) = toLowerCase name
       \<and> getBaseCommand (name @ w # CHR '' '' # rest) = toLowerCase name
       \<and> validateCommand blockedCommands (name @ [w]) = (toLowerCase name \<notin> set blockedCommands)
       \<and> validateCommand blockedCommands (name @ w # CHR '' '' # rest)
           = (toLowerCase name \<notin> set blockedCommands)"
    using t by (simp add: validateCommand_def Set_has_def)
  have kept: "getBaseCommand (name @ w # arg) = toLowerCase (name @ w # arg)
           \<and> getBaseCommand (name @ w # arg @ CHR '' '' # rest) = toLowerCase (name @ w # arg)
           \<and> validateCommand blockedCommands (name @ w # arg)
           \<and> validateCommand blockedCommands (name @ w # arg @ CHR '' '' # rest)"
    if arg: "arg \<noteq> []" "CHR '' '' \<notin> set arg" "\<not> isWhiteSpace (last arg)"
      and blocked: "\<forall>b\<in>set blockedCommands. \<forall>c\<in>set b. \<not> isWhiteSpace c"
  proof -
    let ?p = "name @ w # arg"
    have nospace: "\<forall>c\<in>set ?p. c \<noteq> CHR '' ''"
      using name(2) w(2) arg(2) by auto
    have tw1: "takeWhile (\<lambda>c. c \<noteq> CHR '' '') ?p = ?p"
      using nospace by (simp add: takeWhile_eq_all_conv)
    have "takeWhile (\<lambda>c. c \<noteq> CHR '' '') (?p @ CHR '' '' # rest)
            = takeWhile (\<lambda>c. c \<noteq> CHR '' '') ?p"
      by (rule takeWhile_tail) simp
    then have tw2: "takeWhile (\<lambda>c. c \<noteq> CHR '' '') (name @ w # arg @ CHR '' '' # rest) = ?p"
      by (simp add: tw1)
    have ne: "toLowerCase ?p \<noteq> []" by (simp add: toLowerCase_def)
    have hd_p: "hd (toLowerCase ?p) = toLowerChar (hd name)"
      using name(1) by (cases name) (auto simp: toLowerCase_def)
    have last_p: "last (toLowerCase ?p) = toLowerChar (last arg)"
      using arg(1) by (simp add: toLowerCase_def last_map)
    have "hd name \<in> set name" using name(1) by simp
    then have "\<not> isWhiteSpace (hd (toLowerCase ?p))" using name(2) hd_p by simp
    moreover have "\<not> isWhiteSpace (last (toLowerCase ?p))" using arg(3) last_p by simp
    ultimately have tr: "trim (toLowerCase ?p) = toLowerCase ?p"
      using ne by (intro trim_no_edge_space)
    have g1: "getBaseCommand ?p = toLowerCase ?p"
      by (simp only: getBaseCommand_def tw1 tr)
    have g2: "getBaseCommand (name @ w # arg @ CHR '' '' # rest) = toLowerCase ?p"
      by (simp only: getBaseCommand_def tw2 tr)
    have "toLowerChar w \<in> set (toLowerCase ?p)" by (simp add: toLowerCase_def)
    moreover have "isWhiteSpace (toLowerChar w)" using w(1) by simp
    ultimately have "toLowerCase ?p \<notin> set blockedCommands" using blocked by blast
    then show ?thesis using g1 g2 by (simp add: validateCommand_def Set_has_def)
  qed
  from trimmed kept show ?thesis by blast
qed

text \<open>The command \<open>sudo\<close>, TAB, \<open>rm -rf /\<close>: its base command is \<open>sudo\<close>, TAB, \<open>rm\<close>,
  and the default blocked set, which holds \<open>sudo\<close>, lets it pass. The commands
  \<open>Sudo\<close>, TAB and \<open>Sudo\<close>, TAB, SPACE, \<open>-rf /\<close>: their base command is \<open>sudo\<close>
  and the default blocked set refuses them.\<close>

theorem gate_splits_on_space_only_witness:
  "getBaseCommand (''sudo'' @ CHR 0x09 # ''rm'' @ CHR '' '' # ''-rf /'')
     = ''sudo'' @ CHR 0x09 # ''rm''
   \<and> validateCommand initialBlockedCommands (''sudo'' @ CHR 0x09 # ''rm'' @ CHR '' '' # ''-rf /'')
   \<and> ''sudo'' \<in> set initialBlockedCommands
   \<and> getBaseCommand (''Sudo'' @ [CHR 0x09]) = ''sudo''
   \<and> \<not> validateCommand initialBlockedCommands (''Sudo'' @ [CHR 0x09])
   \<and> getBaseCommand (''Sudo'' @ CHR 0x09 # CHR '' '' # ''-rf /'') = ''sudo''
   \<and> \<not> validateCommand initialBlockedCommands (''Sudo'' @ CHR 0x09 # CHR '' '' # ''-rf /'')"
proof -
  have 1: "''sudo'' \<noteq> []" "\<forall>c\<in>set ''sudo''. \<not> isWhiteSpace c" by code_simp+
  have 7: "''Sudo'' \<noteq> []" "\<forall>c\<in>set ''Sudo''. \<not> isWhiteSpace c" by code_simp+
  have 2: "isWhiteSpace (CHR 0x09)" "CHR 0x09 \<noteq> CHR '' ''" by code_simp+
  have 3: "''rm'' \<noteq> [] \<and> CHR '' '' \<notin> set ''rm'' \<and> \<not> isWhiteSpace (last ''rm'')
      \<and> (\<forall>b\<in>set initialBlockedCommands. \<forall>c\<in>set b. \<not> isWhiteSpace c)" by code_simp
  have 5: "toLowerCase (''sudo'' @ CHR 0x09 # ''rm'') = ''sudo'' @ CHR 0x09 # ''rm''"
    by code_simp
  have 8: "toLowerCase ''Sudo'' = ''sudo''" by code_simp
  have 6: "''sudo'' \<in> set initialBlockedCommands" by code_simp
  from gate_splits_on_space_only [OF 1 2, where rest = "''-rf /''" and arg = "''rm''"
      and blockedCommands = initialBlockedCommands] 3 5 6
  have a: "getBaseCommand (''sudo'' @ CHR 0x09 # ''rm'' @ CHR '' '' # ''-rf /'')
     = ''sudo'' @ CHR 0x09 # ''rm''
   \<and> validateCommand initialBlockedCommands (''sudo'' @ CHR 0x09 # ''rm'' @ CHR '' '' # ''-rf /'')"
    by simp
  from gate_splits_on_space_only [OF 7 2, where rest = "''-rf /''" and arg = "''rm''"
      and blockedCommands = initialBlockedCommands] 8 6
  have b: "getBaseCommand (''Sudo'' @ [CHR 0x09]) = ''sudo''
   \<and> \<not> validateCommand initialBlockedCommands (''Sudo'' @ [CHR 0x09])
   \<and> getBaseCommand (''Sudo'' @ CHR 0x09 # CHR '' '' # ''-rf /'') = ''sudo''
   \<and> \<not> validateCommand initialBlockedCommands (''Sudo'' @ CHR 0x09 # CHR '' '' # ''-rf /'')"
    by simp
  from a b 6 show ?thesis by blast
qed

text \<open>
  C10 as it is stated fails where the white space character is itself followed by a
  space: in \<open>sudo\<close>, TAB, SPACE, \<open>rm -rf /\<close> the text before the first space is
  \<open>sudo\<close> with the TAB, \<open>trim\<close> removes the TAB, the base command is \<open>sudo\<close> and the
  gate refuses the command.
\<close>

theorem tab_before_space_is_trimmed:
  "takeWhile (\<lambda>c. c \<noteq> CHR '' '') (''sudo'' @ CHR 0x09 # '' rm -rf /'') = ''sudo'' @ [CHR 0x09]
   \<and> getBaseCommand (''sudo'' @ CHR 0x09 # '' rm -rf /'') = ''sudo''
   \<and> validateCommand initialBlockedCommands (''sudo'' @ CHR 0x09 # '' rm -rf /'') = False"
  by code_simp

section \<open>Blocking, unblocking and listing\<close>

text \<open>
  C9. \<open>blockCommand\<close> normalises the name (lower case, then trimmed) and puts it into
  the blocked set; it returns true exactly when the name was not there, and leaves the
  set as it was when it returns false. \<open>unblockCommand\<close> removes the normalised name,
  returns true exactly when the name was there, and leaves the set as it was when it
  returns false. \<open>listBlockedCommands\<close> is the blocked set in lexicographic order.
  Hence, for a command whose base command is the normalised name: after blocking the
  gate refuses the command, blocking again returns false and changes nothing,
  unblocking returns true and the gate allows the command again, and unblocking once
  more returns false and changes nothing.
\<close>

theorem block_unblock_list:
  "fst (blockCommand blocked name) = (trim (toLowerCase name) \<notin> set blocked)
   \<and> set (snd (blockCommand blocked name)) = insert (trim (toLowerCase name)) (set blocked)
   \<and> (\<not> fst (blockCommand blocked name) \<longrightarrow> snd (blockCommand blocked name) = blocked)
   \<and> fst (unblockCommand blocked name) = (trim (toLowerCase name) \<in> set blocked)
   \<and> set (snd (unblockCommand blocked name)) = set blocked - {trim (toLowerCase name)}
   \<and> (\<not> fst (unblockCommand blocked name) \<longrightarrow> snd (unblockCommand blocked name) = blocked)
   \<and> sorted (listBlockedCommands blocked)
   \<and> set (listBlockedCommands blocked) = set blocked
   \<and> length (listBlockedCommands blocked) = length blocked
   \<and> (getBaseCommand command = trim (toLowerCase name) \<longrightarrow>
        \<not> validateCommand (snd (blockCommand blocked name)) command
        \<and> blockCommand (snd (blockCommand blocked name)) name
            = (False, snd (blockCommand blocked name))
        \<and> fst (unblockCommand (snd (blockCommand blocked name)) name)
        \<and> validateCommand (snd (unblockCommand (snd (blockCommand blocked name)) name)) command
        \<and> unblockCommand (snd (unblockCommand (snd (blockCommand blocked name)) name)) name
            = (False, snd (unblockCommand (snd (blockCommand blocked name)) name)))"
  by (auto simp: blockCommand_def unblockCommand_def listBlockedCommands_def validateCommand_def
      Set_has_def set_Set_add set_Set_delete Let_def)

text \<open>The run of the specification on the default blocked set: \<open>curl\<close> is not blocked
  at first, and \<open>curl http://x\<close> has the base command \<open>curl\<close>.\<close>

theorem block_unblock_list_curl:
  "getBaseCommand ''curl http://x'' = trim (toLowerCase ''curl'')
   \<and> validateCommand initialBlockedCommands ''curl http://x''
   \<and> fst (blockCommand initialBlockedCommands ''curl'')
   \<and> \<not> validateCommand (snd (blockCommand initialBlockedCommands ''curl'')) ''curl http://x''
   \<and> \<not> fst (blockCommand (snd (blockCommand initialBlockedCommands ''curl'')) ''curl'')
   \<and> snd (blockCommand (snd (blockCommand initialBlockedCommands ''curl'')) ''curl'')
       = snd (blockCommand initialBlockedCommands ''curl'')
   \<and> fst (unblockCommand (snd (blockCommand initialBlockedCommands ''curl'')) ''curl'')
   \<and> validateCommand
        (snd (unblockCommand (snd (blockCommand initialBlockedCommands ''curl'')) ''curl''))
        ''curl http://x''
   \<and> \<not> fst (unblockCommand
              (snd (unblockCommand (snd (blockCommand initialBlockedCommands ''curl'')) ''curl''))
              ''curl'')
   \<and> listBlockedCommands (snd (blockCommand initialBlockedCommands ''curl''))
       = [''adduser'', ''curl'', ''dd'', ''fdisk'', ''format'', ''groupadd'', ''mkfs'', ''mount'',
          ''passwd'', ''su'', ''sudo'', ''umount'', ''useradd'', ''usermod'']"
proof -
  have base: "getBaseCommand ''curl http://x'' = trim (toLowerCase ''curl'')" by code_simp
  have fresh: "trim (toLowerCase ''curl'') \<notin> set initialBlockedCommands" by code_simp
  have l: "listBlockedCommands (snd (blockCommand initialBlockedCommands ''curl''))
       = [''adduser'', ''curl'', ''dd'', ''fdisk'', ''format'', ''groupadd'', ''mkfs'', ''mount'',
          ''passwd'', ''su'', ''sudo'', ''umount'', ''useradd'', ''usermod'']" by code_simp
  have v: "validateCommand initialBlockedCommands ''curl http://x''" by code_simp
  note t = block_unblock_list [where blocked = initialBlockedCommands and name = "''curl''"
      and command = "''curl http://x''"]
  from t base fresh l v show ?thesis by simp
qed

section \<open>Facts about the scan\<close>

text \<open>Definitions that \<open>simp\<close> unfolds to run the model on a given command line.\<close>

lemmas eval_defs = isWhiteSpace_def isUpperCase_def toLowerChar_def toLowerCase_def trim_def
  startsWith_def isWordChar_def matchEnvVar_def extractBaseCommand_def getBaseCommand_def
  Let_def pushBaseCommand_def separators_def subshellContent_def initialScanner_def
  new_Set_def Set_add_def

lemma pushBaseCommand_segment:
  "pushBaseCommand st = commands st @ segmentCommand (currentCmd st)"
  by (simp add: pushBaseCommand_def segmentCommand_def initialScanner_def split: option.splits)

lemma findSeparator_ordinary:
  "c \<notin> {CHR '';'', CHR ''&'', CHR ''|''} \<Longrightarrow> findSeparator separators (c # r) = None"
  by (auto simp: separators_def startsWith_def)

lemma findSeparator_longest:
  "findSeparator separators (''&&'' @ r) = Some ''&&''"
  "findSeparator separators (''||'' @ r) = Some ''||''"
  "findSeparator separators ('';'' @ r) = Some '';''"
  by (simp_all add: separators_def startsWith_def)

lemma findSeparator_single:
  "\<not> startsWith r ''&'' \<Longrightarrow> findSeparator separators (''&'' @ r) = Some ''&''"
  "\<not> startsWith r ''|'' \<Longrightarrow> findSeparator separators (''|'' @ r) = Some ''|''"
  by (cases r; simp add: separators_def startsWith_def)+

lemma scan_ordinary:
  "\<forall>c\<in>set x. ordinary c \<Longrightarrow> \<not> inQuote st \<Longrightarrow> \<not> escaped st \<Longrightarrow>
   scanCommands rec st (x @ r) = scanCommands rec (st\<lparr>currentCmd := currentCmd st @ x\<rparr>) r"
proof (induction x arbitrary: st)
  case Nil
  then show ?case by simp
next
  case (Cons c x)
  from Cons.prems(1) have c: "ordinary c" and x: "\<forall>c\<in>set x. ordinary c" by simp_all
  from c have sep: "findSeparator separators (c # x @ r) = None"
    by (intro findSeparator_ordinary) (auto simp: ordinary_def)
  have "scanCommands rec st ((c # x) @ r)
        = scanCommands rec (st\<lparr>currentCmd := currentCmd st @ [c]\<rparr>) (x @ r)"
    using c Cons.prems(2,3) sep by (simp add: ordinary_def)
  also have "\<dots> = scanCommands rec (st\<lparr>currentCmd := currentCmd st @ [c]\<rparr>\<lparr>currentCmd := currentCmd (st\<lparr>currentCmd := currentCmd st @ [c]\<rparr>) @ x\<rparr>) r"
    using Cons.prems(2,3) x by (intro Cons.IH) simp_all
  finally show ?case by simp
qed

lemma scan_inside_quotes:
  "q \<notin> set body \<Longrightarrow> CHR 0x5C \<notin> set body \<Longrightarrow> inQuote st \<Longrightarrow> quoteChar st = [q] \<Longrightarrow>
   \<not> escaped st \<Longrightarrow>
   scanCommands rec st (body @ r) = scanCommands rec (st\<lparr>currentCmd := currentCmd st @ body\<rparr>) r"
proof (induction body arbitrary: st)
  case Nil
  then show ?case by simp
next
  case (Cons c body)
  from Cons.prems have c: "c \<noteq> q" "c \<noteq> CHR 0x5C" by auto
  have "scanCommands rec st ((c # body) @ r)
        = scanCommands rec (st\<lparr>currentCmd := currentCmd st @ [c]\<rparr>) (body @ r)"
    using Cons.prems(3,4,5) c by simp
  also have "\<dots> = scanCommands rec (st\<lparr>currentCmd := currentCmd st @ [c]\<rparr>\<lparr>currentCmd := currentCmd (st\<lparr>currentCmd := currentCmd st @ [c]\<rparr>) @ body\<rparr>) r"
    using Cons.prems by (intro Cons.IH) simp_all
  finally show ?case by simp
qed

lemma scan_quoted:
  assumes "q = CHR 0x22 \<or> q = CHR 0x27" "q \<notin> set body" "CHR 0x5C \<notin> set body"
    "\<not> inQuote st" "\<not> escaped st"
  shows "scanCommands rec st (q # body @ q # r)
         = scanCommands rec
             (st\<lparr>inQuote := False, quoteChar := [],
                currentCmd := currentCmd st @ q # body @ [q]\<rparr>) r"
proof -
  let ?st1 = "st\<lparr>inQuote := True, quoteChar := [q], currentCmd := currentCmd st @ [q]\<rparr>"
  have "scanCommands rec st (q # body @ q # r) = scanCommands rec ?st1 (body @ q # r)"
    using assms by auto
  also have "\<dots> = scanCommands rec (?st1\<lparr>currentCmd := currentCmd ?st1 @ body\<rparr>) (q # r)"
    using assms by (intro scan_inside_quotes[where q = q]) simp_all
  also have "\<dots> = scanCommands rec
      (st\<lparr>inQuote := False, quoteChar := [], currentCmd := currentCmd st @ q # body @ [q]\<rparr>) r"
    using assms by auto
  finally show ?thesis .
qed

lemma scan_separator:
  assumes "separator \<in> set separators" "\<not> inQuote st" "\<not> escaped st"
    "separator = ''&'' \<longrightarrow> \<not> startsWith r ''&''" "separator = ''|'' \<longrightarrow> \<not> startsWith r ''|''"
  shows "scanCommands rec st (separator @ r)
         = scanCommands rec (st\<lparr>commands := pushBaseCommand st, currentCmd := []\<rparr>) r"
proof -
  from assms(1) consider "separator = '';''" | "separator = ''&&''" | "separator = ''||''"
    | "separator = ''|''" | "separator = ''&''"
    by (auto simp: separators_def)
  then show ?thesis
  proof cases
    case 1
    then show ?thesis using assms(2,3) findSeparator_longest(3)[of r] by simp
  next
    case 2
    then show ?thesis using assms(2,3) findSeparator_longest(1)[of r] by simp
  next
    case 3
    then show ?thesis using assms(2,3) findSeparator_longest(2)[of r] by simp
  next
    case 4
    then show ?thesis using assms(2,3,5) findSeparator_single(2)[of r] by simp
  next
    case 5
    then show ?thesis using assms(2,3,4) findSeparator_single(1)[of r] by simp
  qed
qed

lemma closeParen_zero [simp]: "closeParen 0 r = 0"
  by (cases r) simp_all

lemma closeParen_le: "closeParen n r \<le> length r"
  by (induction r arbitrary: n) auto

lemma closeParen_nesting:
  "nesting d content = Some d' \<Longrightarrow>
   closeParen (Suc d) (content @ r) = length content + closeParen (Suc d') r"
proof (induction content arbitrary: d)
  case Nil
  then show ?case by simp
next
  case (Cons c content)
  then show ?case
    by (cases d) (auto split: if_splits)
qed

lemma closeParen_balanced:
  "balanced content \<Longrightarrow> closeParen 1 (content @ CHR '')'' # r) = Suc (length content)"
  using closeParen_nesting[of 0 content 0 "CHR '')'' # r"] by (simp add: balanced_def)

lemma subshellContent_balanced:
  "balanced content \<Longrightarrow> subshellContent (content @ CHR '')'' # r) = content"
  unfolding subshellContent_def by (simp only: closeParen_balanced) simp

lemma drop_closeParen_balanced:
  "balanced content \<Longrightarrow> drop (closeParen 1 (content @ CHR '')'' # r)) (content @ CHR '')'' # r) = r"
  by (simp only: closeParen_balanced) simp

lemma scan_subshell:
  assumes "balanced content" "\<not> inQuote st" "\<not> escaped st"
  shows "scanCommands rec st (CHR ''('' # content @ CHR '')'' # r)
         = (case rec content of
              Inl error \<Rightarrow> Inl error
            | Inr subCommands \<Rightarrow> scanCommands rec (st\<lparr>commands := commands st @ subCommands\<rparr>) r)"
  using assms closeParen_le[of 1 "content @ CHR '')'' # r"]
  by (simp only: scanCommands.simps subshellContent_balanced drop_closeParen_balanced) simp

lemma joinSegments_head:
  assumes "\<forall>(segment, separator)\<in>set parts. segment \<noteq> [] \<and> (\<forall>c\<in>set segment. ordinary c)"
    and "\<forall>c\<in>set final. ordinary c"
  shows "joinSegments parts final = [] \<or> ordinary (hd (joinSegments parts final))"
proof (cases parts)
  case Nil
  then show ?thesis using assms(2) by (cases final) auto
next
  case (Cons p ps)
  obtain segment separator where p: "p = (segment, separator)" by (cases p)
  with Cons assms(1) have "segment \<noteq> []" "\<forall>c\<in>set segment. ordinary c" by auto
  then show ?thesis using Cons p by (cases segment) auto
qed

lemma not_startsWith_ordinary:
  assumes "s = [] \<or> ordinary (hd s)"
  shows "\<not> startsWith s ''&''" "\<not> startsWith s ''|''"
  using assms by (cases s; auto simp: startsWith_def ordinary_def)+

lemma scan_segments:
  assumes "\<forall>(segment, separator)\<in>set parts.
             segment \<noteq> [] \<and> (\<forall>c\<in>set segment. ordinary c) \<and> separator \<in> set separators"
    and "\<forall>c\<in>set final. ordinary c"
    and "\<not> inQuote st" "\<not> escaped st" "currentCmd st = []"
  shows "scanCommands rec st (joinSegments parts final)
         = Inr (commands st @ concat (map (\<lambda>(segment, separator). segmentCommand segment) parts)
                  @ segmentCommand final)"
  using assms
proof (induction parts arbitrary: st)
  case Nil
  have "scanCommands rec st (final @ []) = scanCommands rec (st\<lparr>currentCmd := currentCmd st @ final\<rparr>) []"
    using Nil.prems by (intro scan_ordinary) simp_all
  then show ?case using Nil.prems(5) by (simp add: pushBaseCommand_segment)
next
  case (Cons p parts)
  obtain segment separator where p: "p = (segment, separator)" by (cases p)
  from Cons.prems(1) p have seg: "\<forall>c\<in>set segment. ordinary c"
    and sep: "separator \<in> set separators"
    and rest: "\<forall>(segment, separator)\<in>set parts.
             segment \<noteq> [] \<and> (\<forall>c\<in>set segment. ordinary c) \<and> separator \<in> set separators"
    by auto
  let ?tail = "joinSegments parts final"
  let ?st1 = "st\<lparr>currentCmd := currentCmd st @ segment\<rparr>"
  let ?st2 = "?st1\<lparr>commands := pushBaseCommand ?st1, currentCmd := []\<rparr>"
  from rest have "\<forall>(segment, separator)\<in>set parts. segment \<noteq> [] \<and> (\<forall>c\<in>set segment. ordinary c)"
    by auto
  then have hd: "?tail = [] \<or> ordinary (hd ?tail)"
    using Cons.prems(2) by (rule joinSegments_head)
  have "scanCommands rec st (joinSegments (p # parts) final)
        = scanCommands rec st (segment @ separator @ ?tail)"
    by (simp add: p)
  also have "\<dots> = scanCommands rec ?st1 (separator @ ?tail)"
    using seg Cons.prems(3,4) by (rule scan_ordinary)
  also have "\<dots> = scanCommands rec ?st2 ?tail"
    using sep Cons.prems(3,4) not_startsWith_ordinary[OF hd] by (intro scan_separator) simp_all
  also have "\<dots> = Inr (commands ?st2
                @ concat (map (\<lambda>(segment, separator). segmentCommand segment) parts)
                @ segmentCommand final)"
    using rest Cons.prems(2,3,4) by (intro Cons.IH) simp_all
  finally show ?case
    using Cons.prems(5) by (simp add: p pushBaseCommand_segment)
qed

lemma extract_segments:
  assumes "\<forall>(segment, separator)\<in>set parts.
             segment \<noteq> [] \<and> (\<forall>c\<in>set segment. ordinary c) \<and> separator \<in> set separators"
    and "\<forall>c\<in>set final. ordinary c"
    and "trim commandString = joinSegments parts final"
  shows "extractCommands (Suc depth) commandString
         = Inr (new_Set (concat (map (\<lambda>(segment, separator). segmentCommand segment) parts)
                  @ segmentCommand final))"
proof -
  have "scanCommands (extractCommands depth) initialScanner (joinSegments parts final)
         = Inr (commands initialScanner
                  @ concat (map (\<lambda>(segment, separator). segmentCommand segment) parts)
                  @ segmentCommand final)"
    using assms(1,2) by (rule scan_segments) (simp_all add: initialScanner_def)
  then show ?thesis by (simp add: assms(3) initialScanner_def)
qed

lemma distinct_foldl_Set_add:
  "distinct acc \<Longrightarrow> distinct (foldl Set_add acc xs)"
  by (induction xs arbitrary: acc) (auto simp: Set_add_def)

lemma foldl_Set_add_distinct:
  "distinct (acc @ xs) \<Longrightarrow> foldl Set_add acc xs = acc @ xs"
  by (induction xs arbitrary: acc) (auto simp: Set_add_def)

lemma distinct_new_Set: "distinct (new_Set xs)"
  by (simp add: new_Set_def distinct_foldl_Set_add)

lemma new_Set_idem: "new_Set (new_Set xs) = new_Set xs"
  using foldl_Set_add_distinct[of "[]" "new_Set xs"] distinct_new_Set[of xs]
  by (simp add: new_Set_def)

lemma extractCommands_Suc:
  "\<exists>cmds. extractCommands (Suc depth) commandString = Inr cmds \<and> new_Set cmds = cmds"
proof (cases "scanCommands (extractCommands depth) initialScanner (trim commandString)")
  case (Inl error)
  then show ?thesis by (simp add: new_Set_def Set_add_def)
next
  case (Inr cmds)
  then show ?thesis by (simp add: new_Set_idem)
qed

lemma extract_subshell:
  assumes "trim commandString = CHR ''('' # content @ '')''" "balanced content"
  shows "extractCommands (Suc (Suc depth)) commandString = extractCommands (Suc depth) content"
proof -
  let ?rec = "extractCommands (Suc depth)"
  obtain cmds where rec: "?rec content = Inr cmds" and cmds: "new_Set cmds = cmds"
    using extractCommands_Suc[of depth content] by blast
  have "scanCommands ?rec initialScanner (CHR ''('' # content @ CHR '')'' # [])
        = (case ?rec content of
              Inl error \<Rightarrow> Inl error
            | Inr subCommands \<Rightarrow>
                scanCommands ?rec (initialScanner\<lparr>commands := commands initialScanner @ subCommands\<rparr>) [])"
    using assms(2) by (rule scan_subshell) (simp_all add: initialScanner_def)
  also have "\<dots> = Inr cmds"
    by (simp only: rec) (simp add: initialScanner_def pushBaseCommand_def trim_def)
  finally have "scanCommands ?rec initialScanner (trim commandString) = Inr cmds"
    by (simp add: assms(1))
  then have "extractCommands (Suc (Suc depth)) commandString = Inr (new_Set cmds)"
    by (simp del: extractCommands.simps add: extractCommands.simps(2)[of "Suc depth"])
  then show ?thesis by (simp only: rec cmds)
qed

section \<open>Facts about the base command of a segment\<close>

lemma isWordChar_not_space: "isWordChar c \<Longrightarrow> \<not> isWhiteSpace c"
  by (auto simp: isWordChar_def isWhiteSpace_def Let_def)

lemma not_isWordChar_eq [simp]: "\<not> isWordChar (CHR ''='')"
  by (simp add: isWordChar_def)

lemma not_isWhiteSpace_eq [simp]: "\<not> isWhiteSpace (CHR ''='')"
  by (simp add: isWhiteSpace_def)

lemma dropWhile_space_head:
  "rest = [] \<or> isWhiteSpace (hd rest) \<Longrightarrow> dropWhile (\<lambda>c. \<not> isWhiteSpace c) rest = rest"
  by (cases rest) auto

lemma takeWhile_space_head:
  "rest = [] \<or> isWhiteSpace (hd rest) \<Longrightarrow> takeWhile (\<lambda>c. \<not> isWhiteSpace c) rest = []"
  by (cases rest) auto

lemma matchEnvVar_assignment:
  assumes "key \<noteq> []" "\<forall>c\<in>set key. isWordChar c"
    and "val \<noteq> []" "\<forall>c\<in>set val. \<not> isWhiteSpace c"
    and "rest = [] \<or> isWhiteSpace (hd rest)"
  shows "matchEnvVar (key @ CHR ''='' # val @ rest) = Some (dropWhile isWhiteSpace rest)"
proof -
  have 1: "takeWhile isWordChar (key @ CHR ''='' # val @ rest) = key"
    using assms(2) by (simp add: takeWhile_append2)
  have 2: "dropWhile isWordChar (key @ CHR ''='' # val @ rest) = CHR ''='' # val @ rest"
    using assms(2) by (simp add: dropWhile_append2)
  have 3: "takeWhile (\<lambda>c. \<not> isWhiteSpace c) (val @ rest) = val"
    using assms(4,5) by (simp add: takeWhile_append2 takeWhile_space_head)
  have 4: "dropWhile (\<lambda>c. \<not> isWhiteSpace c) (val @ rest) = rest"
    using assms(4,5) by (simp add: dropWhile_append2 dropWhile_space_head)
  show ?thesis
    unfolding matchEnvVar_def 1 2 by (simp add: 3 4 assms(1,3))
qed

lemma removeEnvVars_assignment:
  assumes "key \<noteq> []" "\<forall>c\<in>set key. isWordChar c"
    and "val \<noteq> []" "\<forall>c\<in>set val. \<not> isWhiteSpace c"
    and "rest = [] \<or> isWhiteSpace (hd rest)"
  shows "removeEnvVars (key @ CHR ''='' # val @ rest) = removeEnvVars (dropWhile isWhiteSpace rest)"
proof -
  obtain c cs where k: "key @ CHR ''='' # val @ rest = c # cs"
    using assms(1) by (cases key) auto
  have "matchEnvVar (c # cs) = Some (dropWhile isWhiteSpace rest)"
    using matchEnvVar_assignment[OF assms] k by simp
  then have "removeEnvVars (c # cs) = removeEnvVars (dropWhile isWhiteSpace rest)"
    by simp
  then show ?thesis by (simp only: k)
qed

lemma matchEnvVar_space: "isWhiteSpace c \<Longrightarrow> matchEnvVar (c # cs) = None"
  using isWordChar_not_space[of c] by (auto simp: matchEnvVar_def)

lemma removeEnvVars_space:
  "\<forall>c\<in>set sp. isWhiteSpace c \<Longrightarrow> removeEnvVars (sp @ r) = sp @ removeEnvVars r"
  by (induction sp) (simp_all add: matchEnvVar_space)

lemma trim_leading_space: "\<forall>c\<in>set sp. isWhiteSpace c \<Longrightarrow> trim (sp @ x) = trim x"
  by (simp add: trim_def dropWhile_append2)

lemma trim_removeEnvVars_dropWhile:
  "trim (removeEnvVars (dropWhile isWhiteSpace rest)) = trim (removeEnvVars rest)"
proof -
  have sp: "\<forall>c\<in>set (takeWhile isWhiteSpace rest). isWhiteSpace c"
    by (auto dest: set_takeWhileD)
  have "removeEnvVars rest
        = removeEnvVars (takeWhile isWhiteSpace rest @ dropWhile isWhiteSpace rest)"
    by simp
  also have "\<dots> = takeWhile isWhiteSpace rest @ removeEnvVars (dropWhile isWhiteSpace rest)"
    using sp by (rule removeEnvVars_space)
  finally show ?thesis using sp by (simp add: trim_leading_space)
qed

lemma extractBaseCommand_assignment:
  assumes "key \<noteq> []" "\<forall>c\<in>set key. isWordChar c"
    and "val \<noteq> []" "\<forall>c\<in>set val. \<not> isWhiteSpace c"
    and "rest = [] \<or> isWhiteSpace (hd rest)"
  shows "extractBaseCommand (key @ CHR ''='' # val @ rest) = extractBaseCommand rest"
  unfolding extractBaseCommand_def
  by (simp only: removeEnvVars_assignment[OF assms] trim_removeEnvVars_dropWhile)

lemma matchEnvVar_no_eq:
  assumes "\<forall>c\<in>set t. c \<noteq> CHR ''='' \<and> \<not> isWhiteSpace c" "rest = [] \<or> isWhiteSpace (hd rest)"
  shows "matchEnvVar (t @ rest) = None"
proof (cases "dropWhile isWordChar (t @ rest)")
  case Nil
  show ?thesis unfolding matchEnvVar_def Nil by simp
next
  case (Cons x more)
  have "x \<noteq> CHR ''=''"
  proof (cases "\<forall>c\<in>set t. isWordChar c")
    case True
    then have "dropWhile isWordChar rest = x # more" using Cons by (simp add: dropWhile_append2)
    moreover from this have "rest \<noteq> []" by auto
    then have "isWhiteSpace (hd rest)" using assms(2) by simp
    moreover have "\<not> isWordChar (hd rest)"
      using \<open>isWhiteSpace (hd rest)\<close> isWordChar_not_space by blast
    then have "dropWhile isWordChar rest = rest" by (cases rest) auto
    ultimately have "x = hd rest" by simp
    then show ?thesis using \<open>isWhiteSpace (hd rest)\<close> by auto
  next
    case False
    then have "dropWhile isWordChar (t @ rest) = dropWhile isWordChar t @ rest"
      by (auto simp: dropWhile_append)
    moreover have "dropWhile isWordChar t \<noteq> []" using False by simp
    ultimately have "x = hd (dropWhile isWordChar t)" using Cons
      by (cases "dropWhile isWordChar t") auto
    moreover have "hd (dropWhile isWordChar t) \<in> set (dropWhile isWordChar t)"
      using \<open>dropWhile isWordChar t \<noteq> []\<close> by simp
    then have "hd (dropWhile isWordChar t) \<in> set t" by (rule set_dropWhileD)
    ultimately show ?thesis using assms(1) by auto
  qed
  then show ?thesis unfolding matchEnvVar_def Cons by simp
qed

lemma removeEnvVars_token:
  assumes "\<forall>c\<in>set tok. c \<noteq> CHR ''='' \<and> \<not> isWhiteSpace c" "rest = [] \<or> isWhiteSpace (hd rest)"
  shows "removeEnvVars (tok @ rest) = tok @ removeEnvVars rest"
  using assms(1)
proof (induction tok)
  case Nil
  then show ?case by simp
next
  case (Cons c tok)
  have "matchEnvVar ((c # tok) @ rest) = None"
    using Cons.prems assms(2) by (rule matchEnvVar_no_eq)
  then show ?case using Cons by simp
qed

lemma takeWhile_not_rtrim:
  "takeWhile (\<lambda>c. \<not> P c) (rev (dropWhile P (rev x))) = takeWhile (\<lambda>c. \<not> P c) x"
proof -
  define a where "a = rev (dropWhile P (rev x))"
  define t where "t = rev (takeWhile P (rev x))"
  have "a @ t = rev (takeWhile P (rev x) @ dropWhile P (rev x))"
    unfolding a_def t_def by (simp only: rev_append)
  then have x: "x = a @ t" by simp
  have "\<forall>c\<in>set t. P c" unfolding t_def by (auto dest: set_takeWhileD)
  then have "takeWhile (\<lambda>c. \<not> P c) t = []" by (cases t) auto
  then have "takeWhile (\<lambda>c. \<not> P c) (a @ t) = takeWhile (\<lambda>c. \<not> P c) a"
    by (auto simp: takeWhile_append takeWhile_eq_all_conv[THEN iffD2])
  then show ?thesis unfolding a_def[symmetric] by (simp add: x)
qed

lemma firstToken_trim:
  "takeWhile (\<lambda>c. \<not> isWhiteSpace c) (trim s)
   = takeWhile (\<lambda>c. \<not> isWhiteSpace c) (dropWhile isWhiteSpace s)"
  unfolding trim_def by (rule takeWhile_not_rtrim)

lemma dropWhile_all: "(\<forall>x\<in>set (dropWhile P s). P x) \<longleftrightarrow> (\<forall>x\<in>set s. P x)"
proof
  assume a: "\<forall>x\<in>set (dropWhile P s). P x"
  have "set s = set (takeWhile P s) \<union> set (dropWhile P s)"
    by (metis set_append takeWhile_dropWhile_id)
  then show "\<forall>x\<in>set s. P x" using a by (auto dest: set_takeWhileD)
next
  assume "\<forall>x\<in>set s. P x"
  then show "\<forall>x\<in>set (dropWhile P s). P x" by (auto dest: set_dropWhileD)
qed

lemma trim_Nil_iff: "trim s = [] \<longleftrightarrow> (\<forall>c\<in>set s. isWhiteSpace c)"
  by (simp add: trim_def dropWhile_eq_Nil_conv dropWhile_all)

lemma removeEnvVars_space_head:
  "rest = [] \<or> isWhiteSpace (hd rest) \<Longrightarrow>
   removeEnvVars rest = [] \<or> isWhiteSpace (hd (removeEnvVars rest))"
  by (cases rest) (auto simp: matchEnvVar_space)

lemma extractBaseCommand_token:
  assumes "tok \<noteq> []" "\<forall>c\<in>set tok. c \<noteq> CHR ''='' \<and> \<not> isWhiteSpace c"
    and "rest = [] \<or> isWhiteSpace (hd rest)"
  shows "extractBaseCommand (tok @ rest)
         = (if hd tok = CHR ''('' \<or> hd tok = CHR ''$'' then None else Some (toLowerCase tok))"
proof -
  let ?r = "removeEnvVars (tok @ rest)"
  have r: "?r = tok @ removeEnvVars rest" using assms(2,3) by (rule removeEnvVars_token)
  have "hd tok \<in> set tok" using assms(1) by simp
  then have h: "\<not> isWhiteSpace (hd tok)" using assms(2) by blast
  then have ne: "trim ?r \<noteq> []" using assms(1) \<open>hd tok \<in> set tok\<close> by (auto simp: trim_Nil_iff r)
  have "dropWhile isWhiteSpace (tok @ removeEnvVars rest) = tok @ removeEnvVars rest"
    using h assms(1) by (cases tok) auto
  then have "dropWhile isWhiteSpace ?r = ?r" by (simp only: r)
  then have "takeWhile (\<lambda>c. \<not> isWhiteSpace c) (trim ?r) = takeWhile (\<lambda>c. \<not> isWhiteSpace c) ?r"
    by (simp add: firstToken_trim)
  also have "\<dots> = tok"
    using assms(2) removeEnvVars_space_head[OF assms(3)]
    by (simp add: r takeWhile_append2 takeWhile_space_head)
  finally have ft: "takeWhile (\<lambda>c. \<not> isWhiteSpace c) (trim ?r) = tok" .
  show ?thesis
    unfolding extractBaseCommand_def Let_def using ne assms(1) by (simp only: ft) (cases tok; simp)
qed

lemma extractBaseCommand_space:
  "\<forall>c\<in>set sp. isWhiteSpace c \<Longrightarrow> extractBaseCommand (sp @ rest) = extractBaseCommand rest"
  unfolding extractBaseCommand_def by (simp add: removeEnvVars_space trim_leading_space)

lemma removeEnvVars_later_assignment:
  assumes "\<forall>c\<in>set tok. c \<noteq> CHR ''='' \<and> \<not> isWhiteSpace c"
    and "sp \<noteq> []" "\<forall>c\<in>set sp. isWhiteSpace c"
    and "key \<noteq> []" "\<forall>c\<in>set key. isWordChar c"
    and "val \<noteq> []" "\<forall>c\<in>set val. \<not> isWhiteSpace c"
    and "rest = [] \<or> isWhiteSpace (hd rest)"
  shows "removeEnvVars (tok @ sp @ key @ CHR ''='' # val @ rest)
         = tok @ sp @ removeEnvVars (dropWhile isWhiteSpace rest)"
proof -
  let ?a = "key @ CHR ''='' # val @ rest"
  have "sp @ ?a = [] \<or> isWhiteSpace (hd (sp @ ?a))"
    using assms(2,3) by (cases sp) auto
  with assms(1) have "removeEnvVars (tok @ sp @ ?a) = tok @ removeEnvVars (sp @ ?a)"
    by (rule removeEnvVars_token)
  also have "removeEnvVars (sp @ ?a) = sp @ removeEnvVars ?a"
    using assms(3) by (rule removeEnvVars_space)
  also have "removeEnvVars ?a = removeEnvVars (dropWhile isWhiteSpace rest)"
    using assms(4-8) by (rule removeEnvVars_assignment)
  finally show ?thesis .
qed

section \<open>Separators and quotes\<close>

text \<open>
  C6. The separators are tried in the order \<open>;\<close>, \<open>&&\<close>, \<open>||\<close>, \<open>|\<close>, \<open>&\<close>, so that
  text starting with \<open>&&\<close> or \<open>||\<close> matches the two-character separator and both
  characters are passed at once. A command line whose trimmed text consists of
  segments of ordinary characters, each followed by a separator, and a final segment
  yields the base commands of its segments in their order, duplicates removed. A
  quoted region that opens outside quotes is copied into the current segment up to its
  closing quote, separators included (here for a region without a backslash), and the
  scan goes on behind it. So \<open>a; b && c\<close> yields \<open>a\<close>, \<open>b\<close>, \<open>c\<close> and
  \<open>echo "a;b" | grep x\<close> yields \<open>echo\<close>, \<open>grep\<close>, whenever the call stack has room
  for the call.
\<close>

theorem separators_split_outside_quotes:
  "findSeparator separators (''&&'' @ r) = Some ''&&''
   \<and> findSeparator separators (''||'' @ r) = Some ''||''
   \<and> ((\<forall>(segment, separator)\<in>set parts.
           segment \<noteq> [] \<and> (\<forall>c\<in>set segment. ordinary c) \<and> separator \<in> set separators)
        \<and> (\<forall>c\<in>set final. ordinary c)
        \<and> trim commandString = joinSegments parts final
       \<longrightarrow> extractCommands (Suc depth) commandString
            = Inr (new_Set (concat (map (\<lambda>(segment, separator). segmentCommand segment) parts)
                     @ segmentCommand final)))
   \<and> ((q = CHR 0x22 \<or> q = CHR 0x27) \<and> q \<notin> set body \<and> CHR 0x5C \<notin> set body
        \<and> \<not> inQuote st \<and> \<not> escaped st
       \<longrightarrow> scanCommands rec st (q # body @ q # r)
            = scanCommands rec
                (st\<lparr>inQuote := False, quoteChar := [],
                   currentCmd := currentCmd st @ q # body @ [q]\<rparr>) r)
   \<and> extractCommands (Suc depth) ''a; b && c'' = Inr [''a'', ''b'', ''c'']
   \<and> extractCommands (Suc depth) (''echo '' @ CHR 0x22 # ''a;b'' @ CHR 0x22 # '' | grep x'')
       = Inr [''echo'', ''grep'']"
proof -
  have e1: "extractCommands (Suc depth) ''a; b && c'' = Inr [''a'', ''b'', ''c'']"
    by (simp add: eval_defs)
  have e2: "extractCommands (Suc depth) (''echo '' @ CHR 0x22 # ''a;b'' @ CHR 0x22 # '' | grep x'')
       = Inr [''echo'', ''grep'']"
    by (simp add: eval_defs)
  show ?thesis
    using findSeparator_longest(1,2)[of r] extract_segments[of parts final commandString depth]
      scan_quoted[of q body st rec r] e1 e2
    by blast
qed

text \<open>The split of \<open>ls && cat x | wc\<close>, and the scan of a quoted \<open>a;b\<close> followed
  by a pipe.\<close>

theorem separators_split_outside_quotes_witness:
  "extractCommands 1 ''ls && cat x | wc'' = Inr [''ls'', ''cat'', ''wc'']
   \<and> scanCommands (extractCommands 0) initialScanner (CHR 0x22 # ''a;b'' @ CHR 0x22 # '' | wc'')
       = Inr [CHR 0x22 # ''a;b'' @ [CHR 0x22], ''wc'']"
proof -
  note t = separators_split_outside_quotes [where parts = "[(''ls '', ''&&''), ('' cat x '', ''|'')]"
      and final = "'' wc''" and commandString = "''ls && cat x | wc''" and depth = 0
      and q = "CHR 0x22" and body = "''a;b''" and st = initialScanner and rec = "extractCommands 0"
      and r = "'' | wc''"]
  have h1: "\<forall>(segment, separator)\<in>set [(''ls '', ''&&''), ('' cat x '', ''|'')].
           segment \<noteq> [] \<and> (\<forall>c\<in>set segment. ordinary c) \<and> separator \<in> set separators"
    by (simp add: ordinary_def separators_def)
  have h2: "\<forall>c\<in>set '' wc''. ordinary c" by (simp add: ordinary_def)
  have h3: "trim ''ls && cat x | wc'' = joinSegments [(''ls '', ''&&''), ('' cat x '', ''|'')] '' wc''"
    by (simp add: eval_defs)
  have h4: "(CHR 0x22 = CHR 0x22 \<or> CHR 0x22 = CHR 0x27) \<and> CHR 0x22 \<notin> set ''a;b''
        \<and> CHR 0x5C \<notin> set ''a;b'' \<and> \<not> inQuote initialScanner \<and> \<not> escaped initialScanner"
    by (simp add: initialScanner_def)
  have v1: "new_Set (concat (map (\<lambda>(segment, separator). segmentCommand segment)
                [(''ls '', ''&&''), ('' cat x '', ''|'')]) @ segmentCommand '' wc'')
            = [''ls'', ''cat'', ''wc'']"
    by (simp add: eval_defs segmentCommand_def)
  have v2: "scanCommands (extractCommands 0)
              (initialScanner\<lparr>inQuote := False, quoteChar := [],
                 currentCmd := currentCmd initialScanner @ CHR 0x22 # ''a;b'' @ [CHR 0x22]\<rparr>)
              '' | wc''
            = Inr [CHR 0x22 # ''a;b'' @ [CHR 0x22], ''wc'']"
    by (simp add: eval_defs)
  from t h1 h2 h3 h4 v1 v2 show ?thesis by (simp del: extractCommands.simps scanCommands.simps)
qed

section \<open>Subshells\<close>

text \<open>
  C7. When the scan meets an opening parenthesis outside quotes and not escaped, and
  the parenthesis has a partner (the text up to the partner is balanced), the
  recursive call runs on the text between the two, its commands are appended to the
  commands found so far, and the scan resumes behind the closing parenthesis; an
  exception of the recursive call leaves the scan. A command line that is one
  parenthesised group yields what its content yields. So \<open>(rm -rf /)\<close> yields \<open>rm\<close>,
  whenever the call stack has room for the two calls.
\<close>

theorem subshell_is_unwrapped:
  "(balanced content \<and> \<not> inQuote st \<and> \<not> escaped st
      \<longrightarrow> scanCommands rec st (CHR ''('' # content @ CHR '')'' # r)
           = (case rec content of
                Inl error \<Rightarrow> Inl error
              | Inr subCommands \<Rightarrow>
                  scanCommands rec (st\<lparr>commands := commands st @ subCommands\<rparr>) r))
   \<and> (balanced content \<and> trim commandString = CHR ''('' # content @ '')''
      \<longrightarrow> extractCommands (Suc (Suc depth)) commandString = extractCommands (Suc depth) content)
   \<and> extractCommands (Suc (Suc depth)) ''(rm -rf /)'' = Inr [''rm'']"
proof -
  have e: "extractCommands (Suc (Suc depth)) ''(rm -rf /)'' = Inr [''rm'']"
    by (simp add: eval_defs)
  show ?thesis
    using scan_subshell[of content st rec r] extract_subshell[of commandString content depth] e
    by blast
qed

text \<open>The group \<open>(rm -rf /)\<close>, and the scan of \<open>(cd /tmp; ls) | wc\<close>.\<close>

theorem subshell_is_unwrapped_witness:
  "extractCommands 2 ''(rm -rf /)'' = extractCommands 1 ''rm -rf /''
   \<and> extractCommands 1 ''rm -rf /'' = Inr [''rm'']
   \<and> scanCommands (extractCommands 1) initialScanner ''(cd /tmp; ls) | wc'' = Inr [''cd'', ''ls'', ''wc'']"
proof -
  note t = subshell_is_unwrapped [where content = "''rm -rf /''" and commandString = "''(rm -rf /)''"
      and depth = 0 and st = initialScanner and rec = "extractCommands 1" and r = "[]"]
  note u = subshell_is_unwrapped [where content = "''cd /tmp; ls''" and commandString = "[]"
      and depth = 0 and st = initialScanner and rec = "extractCommands 1" and r = "'' | wc''"]
  have h1: "balanced ''rm -rf /''" "balanced ''cd /tmp; ls''" by (simp_all add: balanced_def)
  have h2: "trim ''(rm -rf /)'' = CHR ''('' # ''rm -rf /'' @ '')''" by (simp add: eval_defs)
  have h3: "\<not> inQuote initialScanner \<and> \<not> escaped initialScanner" by (simp add: initialScanner_def)
  have v1: "extractCommands 1 ''rm -rf /'' = Inr [''rm'']" by (simp add: eval_defs)
  have v2: "extractCommands 1 ''cd /tmp; ls'' = Inr [''cd'', ''ls'']" by (simp add: eval_defs)
  have v3: "scanCommands (extractCommands 1)
              (initialScanner\<lparr>commands := commands initialScanner @ [''cd'', ''ls'']\<rparr>) '' | wc''
            = Inr [''cd'', ''ls'', ''wc'']"
    by (simp add: eval_defs)
  from t h1 h2 have a: "extractCommands 2 ''(rm -rf /)'' = extractCommands 1 ''rm -rf /''"
    by (simp del: extractCommands.simps scanCommands.simps add: numeral_2_eq_2)
  from u h1 h3 have "scanCommands (extractCommands 1) initialScanner ''(cd /tmp; ls) | wc''
      = (case extractCommands 1 ''cd /tmp; ls'' of
           Inl error \<Rightarrow> Inl error
         | Inr subCommands \<Rightarrow>
             scanCommands (extractCommands 1)
               (initialScanner\<lparr>commands := commands initialScanner @ subCommands\<rparr>) '' | wc'')"
    by (simp del: extractCommands.simps scanCommands.simps)
  then have b: "scanCommands (extractCommands 1) initialScanner ''(cd /tmp; ls) | wc''
      = Inr [''cd'', ''ls'', ''wc'']"
    by (simp only: v2 v3 sum.case)
  from a v1 b show ?thesis by blast
qed

section \<open>The base command of a segment\<close>

text \<open>
  C8, as the code has it. \<open>extractBaseCommand\<close> removes a leading assignment (word
  characters, \<open>=\<close>, characters that are not white space) together with the white space
  behind it, and ignores leading white space, so that all leading assignments go; of
  the empty text nothing remains and the result is \<open>null\<close>. When the first token that
  remains holds no \<open>=\<close>, it is the token taken: discarded if it begins with \<open>(\<close> or
  \<open>$\<close>, lower-cased otherwise. The leading assignments are not the only text removed:
  an assignment that follows the command is removed as well. So \<open>FOO=1 BAR=2 ls -la\<close>
  yields \<open>ls\<close>.
\<close>

theorem env_assignments_are_stripped:
  "(key \<noteq> [] \<and> (\<forall>c\<in>set key. isWordChar c) \<and> val \<noteq> [] \<and> (\<forall>c\<in>set val. \<not> isWhiteSpace c)
      \<and> (rest = [] \<or> isWhiteSpace (hd rest))
     \<longrightarrow> extractBaseCommand (key @ CHR ''='' # val @ rest) = extractBaseCommand rest)
   \<and> ((\<forall>c\<in>set sp. isWhiteSpace c) \<longrightarrow> extractBaseCommand (sp @ rest) = extractBaseCommand rest)
   \<and> extractBaseCommand [] = None
   \<and> (tok \<noteq> [] \<and> (\<forall>c\<in>set tok. c \<noteq> CHR ''='' \<and> \<not> isWhiteSpace c)
      \<and> (rest = [] \<or> isWhiteSpace (hd rest))
     \<longrightarrow> extractBaseCommand (tok @ rest)
          = (if hd tok = CHR ''('' \<or> hd tok = CHR ''$'' then None else Some (toLowerCase tok)))
   \<and> ((\<forall>c\<in>set tok. c \<noteq> CHR ''='' \<and> \<not> isWhiteSpace c)
      \<and> sp \<noteq> [] \<and> (\<forall>c\<in>set sp. isWhiteSpace c)
      \<and> key \<noteq> [] \<and> (\<forall>c\<in>set key. isWordChar c) \<and> val \<noteq> [] \<and> (\<forall>c\<in>set val. \<not> isWhiteSpace c)
      \<and> (rest = [] \<or> isWhiteSpace (hd rest))
     \<longrightarrow> removeEnvVars (tok @ sp @ key @ CHR ''='' # val @ rest)
          = tok @ sp @ removeEnvVars (dropWhile isWhiteSpace rest))
   \<and> extractCommands (Suc depth) ''FOO=1 BAR=2 ls -la'' = Inr [''ls'']"
proof -
  have e: "extractCommands (Suc depth) ''FOO=1 BAR=2 ls -la'' = Inr [''ls'']"
    by (simp add: eval_defs)
  have n: "extractBaseCommand [] = None" by (simp add: eval_defs)
  show ?thesis
    using extractBaseCommand_assignment[of key val rest] extractBaseCommand_space[of sp rest]
      extractBaseCommand_token[of tok rest]
      removeEnvVars_later_assignment[of tok sp key val rest] e n
    by blast
qed

text \<open>The segment \<open>FOO=1 BAR=2 ls -la\<close>, step by step, and the assignment behind
  the command in \<open>ls FOO=1 -la\<close>.\<close>

theorem env_assignments_are_stripped_witness:
  "extractBaseCommand ''FOO=1 BAR=2 ls -la'' = extractBaseCommand '' BAR=2 ls -la''
   \<and> extractBaseCommand '' BAR=2 ls -la'' = extractBaseCommand ''BAR=2 ls -la''
   \<and> extractBaseCommand ''BAR=2 ls -la'' = extractBaseCommand '' ls -la''
   \<and> extractBaseCommand '' ls -la'' = extractBaseCommand ''ls -la''
   \<and> extractBaseCommand ''ls -la'' = Some ''ls''
   \<and> removeEnvVars ''ls FOO=1 -la'' = ''ls '' @ removeEnvVars ''-la''"
proof -
  note a = env_assignments_are_stripped [where key = "''FOO''" and val = "''1''"
      and rest = "'' BAR=2 ls -la''" and sp = "'' ''" and tok = "[]"]
  note b = env_assignments_are_stripped [where key = "''BAR''" and val = "''2''"
      and rest = "'' ls -la''" and sp = "'' ''" and tok = "[]"]
  note c = env_assignments_are_stripped [where sp = "'' ''" and rest = "''BAR=2 ls -la''"
      and key = "[]" and val = "[]" and tok = "[]"]
  note d = env_assignments_are_stripped [where sp = "'' ''" and rest = "''ls -la''"
      and key = "[]" and val = "[]" and tok = "[]"]
  note e = env_assignments_are_stripped [where tok = "''ls''" and rest = "'' -la''"
      and key = "[]" and val = "[]" and sp = "[]"]
  note f = env_assignments_are_stripped [where tok = "''ls''" and sp = "'' ''" and key = "''FOO''"
      and val = "''1''" and rest = "'' -la''"]
  have w: "\<forall>c\<in>set ''FOO''. isWordChar c" "\<forall>c\<in>set ''BAR''. isWordChar c"
    by (simp_all add: isWordChar_def)
  have v: "\<forall>c\<in>set ''1''. \<not> isWhiteSpace c" "\<forall>c\<in>set ''2''. \<not> isWhiteSpace c"
    "\<forall>c\<in>set ''ls''. c \<noteq> CHR ''='' \<and> \<not> isWhiteSpace c" "\<forall>c\<in>set '' ''. isWhiteSpace c"
    by (simp_all add: isWhiteSpace_def)
  have r: "isWhiteSpace (hd '' BAR=2 ls -la'')" "isWhiteSpace (hd '' ls -la'')"
    "isWhiteSpace (hd '' -la'')"
    by (simp_all add: isWhiteSpace_def)
  have l: "toLowerCase ''ls'' = ''ls''" by (simp add: eval_defs)
  have dw: "dropWhile isWhiteSpace '' -la'' = ''-la''" by (simp add: isWhiteSpace_def)
  from a w v r have 1: "extractBaseCommand ''FOO=1 BAR=2 ls -la'' = extractBaseCommand '' BAR=2 ls -la''"
    by simp
  from c v have 2: "extractBaseCommand '' BAR=2 ls -la'' = extractBaseCommand ''BAR=2 ls -la''"
    by simp
  from b w v r have 3: "extractBaseCommand ''BAR=2 ls -la'' = extractBaseCommand '' ls -la''"
    by simp
  from d v have 4: "extractBaseCommand '' ls -la'' = extractBaseCommand ''ls -la''"
    by simp
  from e v r l have 5: "extractBaseCommand ''ls -la'' = Some ''ls''"
    by simp
  from f w v r dw have 6: "removeEnvVars ''ls FOO=1 -la'' = ''ls '' @ removeEnvVars ''-la''"
    by (simp del: removeEnvVars.simps)
  from 1 2 3 4 5 6 show ?thesis by blast
qed

text \<open>
  C8 as it is stated fails: the replacement is global and not anchored. In
  \<open>ls FOO=1 -la\<close> the assignment behind the command is removed, and in \<open>a-b=c d\<close>
  the match \<open>b=c\<close> with its space is cut out of the first token, so that the command
  reported is \<open>a-d\<close>.
\<close>

theorem env_pattern_is_removed_everywhere:
  "removeEnvVars ''ls FOO=1 -la'' = ''ls -la''
   \<and> extractBaseCommand ''a-b=c d'' = Some ''a-d''"
  by (simp add: eval_defs)

section \<open>Facts about the validation of a path\<close>

text \<open>Definitions that \<open>simp\<close> unfolds to run the model on the hosts above.\<close>

lemmas fs_defs = validatePath_def withTimeout_def validationOperation_def isAllowed_def
  absolute_def expandHome_def normalizePath_def startsWith_def toLowerCase_def toLowerChar_def
  isUpperCase_def PATH_VALIDATION_TIMEOUT_def posix_def sandbox_host_def sandbox_exists_def
  Let_def

lemma validateParentDirectories_stop:
  "path_dirname path p = p \<or> path_dirname path (path_dirname path p) = path_dirname path p \<Longrightarrow>
   validateParentDirectories path h p = Some False"
  by (subst validateParentDirectories.simps) (auto simp: Let_def)

lemma validateParentDirectories_found:
  "path_dirname path p \<noteq> p \<Longrightarrow> path_dirname path (path_dirname path p) \<noteq> path_dirname path p \<Longrightarrow>
   fs_realpath h (path_dirname path p) = Inr resolved \<Longrightarrow>
   validateParentDirectories path h p = Some True"
  by (subst validateParentDirectories.simps) (auto simp: Let_def)

lemma validateParentDirectories_climb:
  "path_dirname path p \<noteq> p \<Longrightarrow> path_dirname path (path_dirname path p) \<noteq> path_dirname path p \<Longrightarrow>
   fs_realpath h (path_dirname path p) = Inl error \<Longrightarrow>
   validateParentDirectories path h p = validateParentDirectories path h (path_dirname path p)"
  by (subst validateParentDirectories.simps) (auto simp: Let_def)

lemma validateParentDirectories_returns:
  assumes "\<forall>p. path_dirname path p = p
             \<or> path_dirname path (path_dirname path p) = path_dirname path p
             \<or> length (path_dirname path p) < length p"
  shows "\<exists>found. validateParentDirectories path h p = Some found"
proof (induction p rule: length_induct)
  case (1 p)
  let ?d = "path_dirname path p"
  show ?case
  proof (cases "?d = p \<or> path_dirname path ?d = ?d")
    case True
    then have "validateParentDirectories path h p = Some False"
      by (rule validateParentDirectories_stop)
    then show ?thesis by blast
  next
    case False
    then have shorter: "length ?d < length p" using assms by blast
    show ?thesis
    proof (cases "fs_realpath h ?d")
      case (Inr resolved)
      then have "validateParentDirectories path h p = Some True"
        using False by (intro validateParentDirectories_found) auto
      then show ?thesis by blast
    next
      case (Inl error)
      then have "validateParentDirectories path h p = validateParentDirectories path h ?d"
        using False by (intro validateParentDirectories_climb) auto
      then show ?thesis using 1 shorter by simp
    qed
  qed
qed

lemma posix_dirname_end:
  assumes "length (dropWhile (\<lambda>c. c \<noteq> CHR ''/'') (dropWhile (\<lambda>c. c = CHR ''/'') xs)) = Suc n"
  shows "Suc (Suc n) \<le> length xs"
proof -
  define y where "y = dropWhile (\<lambda>c. c = CHR ''/'') xs"
  define z where "z = dropWhile (\<lambda>c. c \<noteq> CHR ''/'') y"
  have a: "length z = Suc n" using assms by (simp add: z_def y_def)
  have y: "y \<noteq> []" using a by (auto simp: z_def)
  then have "dropWhile (\<lambda>c. c = CHR ''/'') xs \<noteq> []" unfolding y_def .
  then have "\<not> (\<lambda>c. c = CHR ''/'') (hd (dropWhile (\<lambda>c. c = CHR ''/'') xs))"
    by (rule hd_dropWhile)
  then have "hd y \<noteq> CHR ''/''" unfolding y_def .
  then have "takeWhile (\<lambda>c. c \<noteq> CHR ''/'') y \<noteq> []" using y by (cases y) auto
  moreover have "length (takeWhile (\<lambda>c. c \<noteq> CHR ''/'') y) + length z = length y"
    unfolding z_def by (metis length_append takeWhile_dropWhile_id)
  ultimately have "length z < length y" by (cases "takeWhile (\<lambda>c. c \<noteq> CHR ''/'') y") auto
  moreover have "length y \<le> length xs" unfolding y_def by (rule length_dropWhile_le)
  ultimately show ?thesis using a by simp
qed

lemma posix_dirname_fixed: "posix_dirname ''/'' = ''/''" "posix_dirname ''.'' = ''.''"
  by (simp_all add: posix_dirname_def)

lemma posix_dirname_cases:
  assumes "p \<noteq> []"
    and "e = length (dropWhile (\<lambda>c. c \<noteq> CHR ''/'') (dropWhile (\<lambda>c. c = CHR ''/'') (rev (tl p))))"
  shows "posix_dirname p =
           (if e = 0 then (if hd p = CHR ''/'' then ''/'' else ''.'')
            else if hd p = CHR ''/'' \<and> e = 1 then ''//'' else take e p)"
  unfolding posix_dirname_def Let_def assms(2)[symmetric] using assms(1) by simp

lemma posix_dirname_shorter:
  "posix_dirname p = p \<or> posix_dirname (posix_dirname p) = posix_dirname p
   \<or> length (posix_dirname p) < length p"
proof (cases "p = []")
  case True
  then have a: "posix_dirname p = ''.''" by (simp add: posix_dirname_def)
  have "posix_dirname (posix_dirname p) = posix_dirname p"
    by (simp only: a posix_dirname_fixed)
  then show ?thesis by blast
next
  case False
  define e where "e = length (dropWhile (\<lambda>c. c \<noteq> CHR ''/'')
                               (dropWhile (\<lambda>c. c = CHR ''/'') (rev (tl p))))"
  note pd = posix_dirname_cases[OF False e_def]
  show ?thesis
  proof (cases e)
    case 0
    then have "posix_dirname p = ''/'' \<or> posix_dirname p = ''.''"
      by (simp add: pd)
    then have "posix_dirname (posix_dirname p) = posix_dirname p"
      using posix_dirname_fixed by metis
    then show ?thesis by blast
  next
    case (Suc n)
    have "Suc (Suc n) \<le> length (rev (tl p))"
      using Suc unfolding e_def by (rule posix_dirname_end)
    then have len: "Suc (Suc e) \<le> length p" using Suc False by simp
    have "posix_dirname p = ''//'' \<or> posix_dirname p = take e p"
      using Suc by (simp add: pd)
    then have "length (posix_dirname p) < length p" using len Suc by auto
    then show ?thesis by blast
  qed
qed

lemma posix_dirname_well_founded:
  "\<forall>p. path_dirname posix p = p
       \<or> path_dirname posix (path_dirname posix p) = path_dirname posix p
       \<or> length (path_dirname posix p) < length p"
  by (simp add: posix_def posix_dirname_shorter)

lemma posix_dirname_examples:
  "posix_dirname ''/sandbox/new/dir/file.txt'' = ''/sandbox/new/dir''"
  "posix_dirname ''/sandbox/new/dir'' = ''/sandbox/new''"
  "posix_dirname ''/sandbox/new'' = ''/sandbox''"
  "posix_dirname ''/sandbox'' = ''/''"
  "posix_dirname ''/data/new/file.txt'' = ''/data/new''"
  "posix_dirname ''/data/new'' = ''/data''"
  "posix_dirname ''/data'' = ''/''"
  "posix_dirname ''/'' = ''/''"
  by (simp_all add: posix_dirname_def)

lemma validationOperation_denied:
  "\<not> isAllowed path allowedDirectories (absolute path h requestedPath) \<Longrightarrow>
   validationOperation path h allowedDirectories requestedPath
     = Some (0, AccessDenied (absolute path h requestedPath))"
  by (simp add: validationOperation_def)

lemma validatePath_denied:
  "\<not> isAllowed path allowedDirectories (absolute path h requestedPath) \<Longrightarrow>
   validatePath path h allowedDirectories requestedPath = AccessDenied (absolute path h requestedPath)"
  by (simp add: validatePath_def withTimeout_def validationOperation_denied
      PATH_VALIDATION_TIMEOUT_def zero_enat_def)

lemma validationOperation_allowed:
  assumes "isAllowed path allowedDirectories (absolute path h requestedPath)"
  shows "validationOperation path h allowedDirectories requestedPath = None
         \<or> (\<exists>resolved. validationOperation path h allowedDirectories requestedPath
               = Some (fs_settled_ms h (absolute path h requestedPath), Resolved resolved))"
  using assms by (auto simp: validationOperation_def split: sum.splits option.splits)

lemma validatePath_timeout:
  assumes "isAllowed path allowedDirectories (absolute path h requestedPath)"
    and "\<not> fs_settled_ms h (absolute path h requestedPath) < enat PATH_VALIDATION_TIMEOUT"
  shows "validatePath path h allowedDirectories requestedPath
         = TimedOut requestedPath PATH_VALIDATION_TIMEOUT"
  using validationOperation_allowed[OF assms(1)] assms(2)
  by (auto simp: validatePath_def withTimeout_def)

lemma validatePath_never_settles:
  "validationOperation path h allowedDirectories requestedPath = None \<Longrightarrow>
   validatePath path h allowedDirectories requestedPath
     = TimedOut requestedPath PATH_VALIDATION_TIMEOUT"
  by (simp add: validatePath_def withTimeout_def)

lemma validatePath_outcomes:
  "(\<exists>resolved. validatePath path h allowedDirectories requestedPath = Resolved resolved)
   \<or> validatePath path h allowedDirectories requestedPath = AccessDenied (absolute path h requestedPath)
   \<or> validatePath path h allowedDirectories requestedPath
       = TimedOut requestedPath PATH_VALIDATION_TIMEOUT"
proof (cases "isAllowed path allowedDirectories (absolute path h requestedPath)")
  case False
  then show ?thesis by (simp add: validatePath_denied)
next
  case True
  from validationOperation_allowed[OF True] show ?thesis
    by (auto simp: validatePath_def withTimeout_def split: if_splits)
qed

lemma validationOperation_existing:
  assumes "isAllowed path allowedDirectories (absolute path h requestedPath)"
    and "fs_stat h (absolute path h requestedPath) = Inr stats"
    and "fs_realpath h (absolute path h requestedPath) = Inr resolved"
  shows "validationOperation path h allowedDirectories requestedPath
         = Some (fs_settled_ms h (absolute path h requestedPath), Resolved resolved)"
  using assms by (simp add: validationOperation_def)

lemma validationOperation_missing:
  assumes "\<forall>q. path_dirname path q = q
             \<or> path_dirname path (path_dirname path q) = path_dirname path q
             \<or> length (path_dirname path q) < length q"
    and "isAllowed path allowedDirectories (absolute path h requestedPath)"
    and "fs_stat h (absolute path h requestedPath) = Inl error"
  shows "validationOperation path h allowedDirectories requestedPath
         = Some (fs_settled_ms h (absolute path h requestedPath),
                 Resolved (absolute path h requestedPath))"
proof -
  obtain found where "validateParentDirectories path h (absolute path h requestedPath) = Some found"
    using validateParentDirectories_returns[OF assms(1)] by blast
  then show ?thesis
    using assms(2,3) by (simp add: validationOperation_def)
qed

lemma validatePath_Resolved_allowed:
  "validatePath path h allowedDirectories requestedPath = Resolved resolved \<Longrightarrow>
   isAllowed path allowedDirectories (absolute path h requestedPath)"
  using validatePath_denied[of path allowedDirectories h requestedPath] by auto

lemma validatePath_existing:
  assumes "isAllowed path allowedDirectories (absolute path h requestedPath)"
    and "fs_stat h (absolute path h requestedPath) = Inr stats"
    and "fs_realpath h (absolute path h requestedPath) = Inr resolved"
    and "fs_settled_ms h (absolute path h requestedPath) < enat PATH_VALIDATION_TIMEOUT"
  shows "validatePath path h allowedDirectories requestedPath = Resolved resolved"
  using assms by (simp add: validatePath_def withTimeout_def validationOperation_def)

lemma validatePath_missing:
  assumes "\<forall>q. path_dirname path q = q
             \<or> path_dirname path (path_dirname path q) = path_dirname path q
             \<or> length (path_dirname path q) < length q"
    and "isAllowed path allowedDirectories (absolute path h requestedPath)"
    and "fs_stat h (absolute path h requestedPath) = Inl error"
    and "fs_settled_ms h (absolute path h requestedPath) < enat PATH_VALIDATION_TIMEOUT"
  shows "validatePath path h allowedDirectories requestedPath
         = Resolved (absolute path h requestedPath)"
proof -
  obtain found where "validateParentDirectories path h (absolute path h requestedPath) = Some found"
    using validateParentDirectories_returns[OF assms(1)] by blast
  then show ?thesis
    using assms(2,3,4) by (simp add: validatePath_def withTimeout_def validationOperation_def)
qed

lemma validationOperation_walk:
  assumes "isAllowed path allowedDirectories (absolute path h requestedPath)"
    and "fs_stat h (absolute path h requestedPath) = Inl error"
  shows "validationOperation path h allowedDirectories requestedPath
         = map_option (\<lambda>found. (fs_settled_ms h (absolute path h requestedPath),
                                 Resolved (absolute path h requestedPath)))
             (validateParentDirectories path h (absolute path h requestedPath))"
  using assms by (simp add: validationOperation_def split: option.splits)

lemma validatePath_missing_outcomes:
  assumes "isAllowed path allowedDirectories (absolute path h requestedPath)"
    and "fs_stat h (absolute path h requestedPath) = Inl error"
  shows "validatePath path h allowedDirectories requestedPath
           = Resolved (absolute path h requestedPath)
         \<or> validatePath path h allowedDirectories requestedPath
           = TimedOut requestedPath PATH_VALIDATION_TIMEOUT"
  by (cases "validateParentDirectories path h (absolute path h requestedPath)")
     (simp_all add: validatePath_def withTimeout_def validationOperation_walk[OF assms])

section \<open>Paths outside the allowed directories\<close>

text \<open>
  C3. When the normalised absolute form of the requested path (\<open>path.normalize\<close>, then
  lower case) is no normalised allowed directory and starts with none of them followed
  by the separator, \<open>validatePath\<close> returns the access-denied result for the absolute
  path, and so no validated path. The denial is decided before any file system call is
  awaited, so no condition on the file system or on its speed is needed.
\<close>

theorem outside_paths_are_denied:
  "(\<forall>dir\<in>set allowedDirectories.
      normalizePath path (absolute path h requestedPath) \<noteq> normalizePath path dir
      \<and> \<not> startsWith (normalizePath path (absolute path h requestedPath))
            (normalizePath path dir @ path_sep path))
   \<longrightarrow> validatePath path h allowedDirectories requestedPath
         = AccessDenied (absolute path h requestedPath)
       \<and> (\<forall>resolved. validatePath path h allowedDirectories requestedPath \<noteq> Resolved resolved)"
proof
  assume a: "\<forall>dir\<in>set allowedDirectories.
      normalizePath path (absolute path h requestedPath) \<noteq> normalizePath path dir
      \<and> \<not> startsWith (normalizePath path (absolute path h requestedPath))
            (normalizePath path dir @ path_sep path)"
  then have "\<not> isAllowed path allowedDirectories (absolute path h requestedPath)"
    by (auto simp: isAllowed_def Let_def)
  then have "validatePath path h allowedDirectories requestedPath
         = AccessDenied (absolute path h requestedPath)"
    by (rule validatePath_denied)
  then show "validatePath path h allowedDirectories requestedPath
         = AccessDenied (absolute path h requestedPath)
       \<and> (\<forall>resolved. validatePath path h allowedDirectories requestedPath \<noteq> Resolved resolved)"
    by simp
qed

text \<open>With \<open>/sandbox\<close> allowed, \<open>/sandboxed/file\<close> is denied: it starts with the
  directory, but not with the directory and the separator.\<close>

theorem outside_paths_are_denied_witness:
  "validatePath posix sandbox_host [''/sandbox''] ''/sandboxed/file'' = AccessDenied ''/sandboxed/file''"
proof -
  have "\<forall>dir\<in>set [''/sandbox''].
      normalizePath posix (absolute posix sandbox_host ''/sandboxed/file'') \<noteq> normalizePath posix dir
      \<and> \<not> startsWith (normalizePath posix (absolute posix sandbox_host ''/sandboxed/file''))
            (normalizePath posix dir @ path_sep posix)"
    by (simp add: fs_defs)
  moreover have "absolute posix sandbox_host ''/sandboxed/file'' = ''/sandboxed/file''"
    by (simp add: fs_defs)
  ultimately show ?thesis
    using outside_paths_are_denied [of "[''/sandbox'']" posix sandbox_host "''/sandboxed/file''"]
    by simp
qed

section \<open>Paths that exist\<close>

text \<open>
  C1, as the code has it. For a requested path whose absolute form passes the
  containment check and for which \<open>fs.stat\<close> and \<open>fs.realpath\<close> are fulfilled, the
  validation operation is fulfilled with the real path, and \<open>validatePath\<close> returns
  that real path when the file system calls settle within the budget. A validated path
  is returned only for a requested path whose absolute form passes the check: the check
  is made on the path as requested, before symbolic links are resolved, and the real
  path is returned without a second check.
\<close>

theorem existing_path_is_resolved:
  "(isAllowed path allowedDirectories (absolute path h requestedPath)
      \<and> fs_stat h (absolute path h requestedPath) = Inr stats
      \<and> fs_realpath h (absolute path h requestedPath) = Inr resolved
     \<longrightarrow> validationOperation path h allowedDirectories requestedPath
          = Some (fs_settled_ms h (absolute path h requestedPath), Resolved resolved))
   \<and> (isAllowed path allowedDirectories (absolute path h requestedPath)
      \<and> fs_stat h (absolute path h requestedPath) = Inr stats
      \<and> fs_realpath h (absolute path h requestedPath) = Inr resolved
      \<and> fs_settled_ms h (absolute path h requestedPath) < enat PATH_VALIDATION_TIMEOUT
     \<longrightarrow> validatePath path h allowedDirectories requestedPath = Resolved resolved)
   \<and> (validatePath path h allowedDirectories requestedPath = Resolved resolved
     \<longrightarrow> isAllowed path allowedDirectories (absolute path h requestedPath))"
  using validationOperation_existing[of path allowedDirectories h requestedPath stats resolved]
    validatePath_existing[of path allowedDirectories h requestedPath stats resolved]
    validatePath_Resolved_allowed[of path h allowedDirectories requestedPath resolved]
  by blast

text \<open>The allowed directory \<open>/sandbox\<close> itself, on the host \<open>sandbox_host\<close>.\<close>

theorem existing_path_is_resolved_witness:
  "validatePath posix sandbox_host [''/sandbox''] ''/sandbox'' = Resolved ''/sandbox''"
proof -
  have a: "absolute posix sandbox_host ''/sandbox'' = ''/sandbox''" by (simp add: fs_defs)
  have "isAllowed posix [''/sandbox''] ''/sandbox''" by (simp add: fs_defs)
  moreover have "fs_stat sandbox_host ''/sandbox'' = Inr ()" by (simp add: fs_defs)
  moreover have "fs_realpath sandbox_host ''/sandbox'' = Inr ''/sandbox''" by (simp add: fs_defs)
  moreover have "fs_settled_ms sandbox_host ''/sandbox'' < enat PATH_VALIDATION_TIMEOUT"
    by (simp add: fs_defs)
  ultimately show ?thesis
    using existing_path_is_resolved [where path = posix and allowedDirectories = "[''/sandbox'']"
        and h = sandbox_host and requestedPath = "''/sandbox''" and stats = "()"
        and resolved = "''/sandbox''"] a
    by simp
qed

text \<open>
  C1 as it is stated fails: the path returned for an existing path need not lie in an
  allowed directory. On \<open>sandbox_host\<close> the link \<open>/sandbox/link\<close> passes the check and
  exists, and \<open>validatePath\<close> returns its target \<open>/etc/passwd\<close>, which lies in no
  allowed directory.
\<close>

theorem symlink_leaves_the_sandbox:
  "isAllowed posix [''/sandbox''] (absolute posix sandbox_host ''/sandbox/link'')
   \<and> fs_stat sandbox_host (absolute posix sandbox_host ''/sandbox/link'') = Inr ()
   \<and> validatePath posix sandbox_host [''/sandbox''] ''/sandbox/link'' = Resolved ''/etc/passwd''
   \<and> \<not> isAllowed posix [''/sandbox''] ''/etc/passwd''"
  by (simp add: fs_defs)

section \<open>Paths that do not exist yet\<close>

text \<open>
  C5, as the code has it. \<open>validateParentDirectories\<close> stops with false when the
  parent of the path is the path itself or is its own parent (the root), answers true
  when the parent exists, and otherwise goes on with the parent. When \<open>path.dirname\<close>
  shortens every path on which the walk does not stop, as the \<open>dirname\<close> of Node's
  POSIX \<open>path\<close> does, the walk returns. For a requested path whose absolute form
  passes the containment check and for which \<open>fs.stat\<close> is rejected, the validation
  operation makes that walk from the absolute path and, when the walk returns, is
  fulfilled with the absolute path as it was requested, whatever the walk found.
  \<open>validatePath\<close> returns that path when the file system calls settle within the
  budget, and the timed-out result for the requested path when they do not; it
  returns nothing else for such a path.
\<close>

theorem nonexistent_path_is_returned:
  "(path_dirname path p = p \<or> path_dirname path (path_dirname path p) = path_dirname path p
      \<longrightarrow> validateParentDirectories path h p = Some False)
   \<and> (path_dirname path p \<noteq> p \<and> path_dirname path (path_dirname path p) \<noteq> path_dirname path p
      \<and> fs_realpath h (path_dirname path p) = Inr resolved
      \<longrightarrow> validateParentDirectories path h p = Some True)
   \<and> (path_dirname path p \<noteq> p \<and> path_dirname path (path_dirname path p) \<noteq> path_dirname path p
      \<and> fs_realpath h (path_dirname path p) = Inl error
      \<longrightarrow> validateParentDirectories path h p = validateParentDirectories path h (path_dirname path p))
   \<and> ((\<forall>q. path_dirname path q = q
             \<or> path_dirname path (path_dirname path q) = path_dirname path q
             \<or> length (path_dirname path q) < length q)
      \<longrightarrow> (\<exists>found. validateParentDirectories path h p = Some found))
   \<and> (isAllowed path allowedDirectories (absolute path h requestedPath)
      \<and> fs_stat h (absolute path h requestedPath) = Inl error
      \<longrightarrow> validationOperation path h allowedDirectories requestedPath
           = map_option (\<lambda>found. (fs_settled_ms h (absolute path h requestedPath),
                                   Resolved (absolute path h requestedPath)))
               (validateParentDirectories path h (absolute path h requestedPath)))
   \<and> ((\<forall>q. path_dirname path q = q
             \<or> path_dirname path (path_dirname path q) = path_dirname path q
             \<or> length (path_dirname path q) < length q)
      \<and> isAllowed path allowedDirectories (absolute path h requestedPath)
      \<and> fs_stat h (absolute path h requestedPath) = Inl error
      \<longrightarrow> validationOperation path h allowedDirectories requestedPath
           = Some (fs_settled_ms h (absolute path h requestedPath),
                   Resolved (absolute path h requestedPath)))
   \<and> ((\<forall>q. path_dirname path q = q
             \<or> path_dirname path (path_dirname path q) = path_dirname path q
             \<or> length (path_dirname path q) < length q)
      \<and> isAllowed path allowedDirectories (absolute path h requestedPath)
      \<and> fs_stat h (absolute path h requestedPath) = Inl error
      \<and> fs_settled_ms h (absolute path h requestedPath) < enat PATH_VALIDATION_TIMEOUT
      \<longrightarrow> validatePath path h allowedDirectories requestedPath
           = Resolved (absolute path h requestedPath))
   \<and> (isAllowed path allowedDirectories (absolute path h requestedPath)
      \<and> fs_stat h (absolute path h requestedPath) = Inl error
      \<and> \<not> fs_settled_ms h (absolute path h requestedPath) < enat PATH_VALIDATION_TIMEOUT
      \<longrightarrow> validatePath path h allowedDirectories requestedPath
           = TimedOut requestedPath PATH_VALIDATION_TIMEOUT)
   \<and> (isAllowed path allowedDirectories (absolute path h requestedPath)
      \<and> fs_stat h (absolute path h requestedPath) = Inl error
      \<longrightarrow> validatePath path h allowedDirectories requestedPath
            = Resolved (absolute path h requestedPath)
          \<or> validatePath path h allowedDirectories requestedPath
            = TimedOut requestedPath PATH_VALIDATION_TIMEOUT)"
  using validateParentDirectories_stop[of path p h]
    validateParentDirectories_found[of path p h resolved]
    validateParentDirectories_climb[of path p h error]
    validateParentDirectories_returns[of path h p]
    validationOperation_walk[of path allowedDirectories h requestedPath error]
    validationOperation_missing[of path allowedDirectories h requestedPath error]
    validatePath_missing[of path allowedDirectories h requestedPath error]
    validatePath_timeout[of path allowedDirectories h requestedPath]
    validatePath_missing_outcomes[of path allowedDirectories h requestedPath error]
  by blast

text \<open>
  On \<open>sandbox_host\<close>: below \<open>/sandbox\<close> the walk from \<open>/sandbox/new/dir/file.txt\<close>
  finds the existing \<open>/sandbox\<close>; below \<open>/data\<close>, which does not exist, the walk from
  \<open>/data/new/file.txt\<close> stops at the root and finds nothing. Both paths are returned.
  On \<open>stalled_host\<close> the first of them times out.
\<close>

theorem nonexistent_path_is_returned_witness:
  "validateParentDirectories posix sandbox_host ''/sandbox/new/dir/file.txt'' = Some True
   \<and> validationOperation posix sandbox_host [''/sandbox''] ''/sandbox/new/dir/file.txt''
       = Some (3, Resolved ''/sandbox/new/dir/file.txt'')
   \<and> validatePath posix sandbox_host [''/sandbox''] ''/sandbox/new/dir/file.txt''
       = Resolved ''/sandbox/new/dir/file.txt''
   \<and> validateParentDirectories posix sandbox_host ''/data/new/file.txt'' = Some False
   \<and> validationOperation posix sandbox_host [''/data''] ''/data/new/file.txt''
       = Some (3, Resolved ''/data/new/file.txt'')
   \<and> validatePath posix sandbox_host [''/data''] ''/data/new/file.txt''
       = Resolved ''/data/new/file.txt''
   \<and> validatePath posix stalled_host [''/sandbox''] ''/sandbox/new/dir/file.txt''
       = TimedOut ''/sandbox/new/dir/file.txt'' 10000"
proof -
  note d = posix_dirname_examples
  have pd: "path_dirname posix = posix_dirname" by (simp add: posix_def)
  have rp: "fs_realpath sandbox_host ''/sandbox/new/dir'' = Inl ENOENT"
    "fs_realpath sandbox_host ''/sandbox/new'' = Inl ENOENT"
    "fs_realpath sandbox_host ''/sandbox'' = Inr ''/sandbox''"
    "fs_realpath sandbox_host ''/data/new'' = Inl ENOENT"
    "fs_realpath sandbox_host ''/data'' = Inl ENOENT"
    by (simp_all add: sandbox_host_def sandbox_exists_def)
  note t = nonexistent_path_is_returned [where path = posix and h = sandbox_host]
  from t [where p = "''/sandbox/new/dir/file.txt''" and error = ENOENT] rp
  have 1: "validateParentDirectories posix sandbox_host ''/sandbox/new/dir/file.txt''
           = validateParentDirectories posix sandbox_host ''/sandbox/new/dir''"
    by (simp add: pd d)
  from t [where p = "''/sandbox/new/dir''" and error = ENOENT] rp
  have 2: "validateParentDirectories posix sandbox_host ''/sandbox/new/dir''
           = validateParentDirectories posix sandbox_host ''/sandbox/new''"
    by (simp add: pd d)
  from t [where p = "''/sandbox/new''" and resolved = "''/sandbox''"] rp
  have 3: "validateParentDirectories posix sandbox_host ''/sandbox/new'' = Some True"
    by (simp add: pd d)
  from t [where p = "''/data/new/file.txt''" and error = ENOENT] rp
  have 4: "validateParentDirectories posix sandbox_host ''/data/new/file.txt''
           = validateParentDirectories posix sandbox_host ''/data/new''"
    by (simp add: pd d)
  from t [where p = "''/data/new''" and error = ENOENT] rp
  have 5: "validateParentDirectories posix sandbox_host ''/data/new''
           = validateParentDirectories posix sandbox_host ''/data''"
    by (simp add: pd d)
  from t [where p = "''/data''"]
  have 6: "validateParentDirectories posix sandbox_host ''/data'' = Some False"
    by (simp add: pd d)
  have a: "absolute posix sandbox_host ''/sandbox/new/dir/file.txt'' = ''/sandbox/new/dir/file.txt''"
    "absolute posix sandbox_host ''/data/new/file.txt'' = ''/data/new/file.txt''"
    by (simp_all add: fs_defs)
  have al: "isAllowed posix [''/sandbox''] ''/sandbox/new/dir/file.txt''"
    "isAllowed posix [''/data''] ''/data/new/file.txt''"
    by (simp_all add: fs_defs)
  have st: "fs_stat sandbox_host ''/sandbox/new/dir/file.txt'' = Inl ENOENT"
    "fs_stat sandbox_host ''/data/new/file.txt'' = Inl ENOENT"
    by (simp_all add: fs_defs)
  have ms: "fs_settled_ms sandbox_host ''/sandbox/new/dir/file.txt'' = 3"
    "fs_settled_ms sandbox_host ''/data/new/file.txt'' = 3"
    "(3 :: enat) < enat PATH_VALIDATION_TIMEOUT"
    by (simp_all add: fs_defs)
  from t [where allowedDirectories = "[''/sandbox'']" and requestedPath = "''/sandbox/new/dir/file.txt''"
      and error = ENOENT] posix_dirname_well_founded a al st ms 1 2 3
  have 7: "validationOperation posix sandbox_host [''/sandbox''] ''/sandbox/new/dir/file.txt''
       = Some (3, Resolved ''/sandbox/new/dir/file.txt'')
     \<and> validatePath posix sandbox_host [''/sandbox''] ''/sandbox/new/dir/file.txt''
       = Resolved ''/sandbox/new/dir/file.txt''"
    by simp
  from t [where allowedDirectories = "[''/data'']" and requestedPath = "''/data/new/file.txt''"
      and error = ENOENT] posix_dirname_well_founded a al st ms 4 5 6
  have 8: "validationOperation posix sandbox_host [''/data''] ''/data/new/file.txt''
       = Some (3, Resolved ''/data/new/file.txt'')
     \<and> validatePath posix sandbox_host [''/data''] ''/data/new/file.txt''
       = Resolved ''/data/new/file.txt''"
    by simp
  have sa: "absolute posix stalled_host ''/sandbox/new/dir/file.txt'' = ''/sandbox/new/dir/file.txt''"
    by (simp add: fs_defs stalled_host_def)
  have ss: "fs_stat stalled_host ''/sandbox/new/dir/file.txt'' = Inl ENOENT"
    by (simp add: fs_defs stalled_host_def)
  have sm: "\<not> fs_settled_ms stalled_host ''/sandbox/new/dir/file.txt'' < enat PATH_VALIDATION_TIMEOUT"
    by (simp add: fs_defs stalled_host_def)
  from nonexistent_path_is_returned [where path = posix and h = stalled_host
      and allowedDirectories = "[''/sandbox'']" and requestedPath = "''/sandbox/new/dir/file.txt''"
      and error = ENOENT] sa al ss sm
  have 9: "validatePath posix stalled_host [''/sandbox''] ''/sandbox/new/dir/file.txt''
       = TimedOut ''/sandbox/new/dir/file.txt'' 10000"
    by (simp add: PATH_VALIDATION_TIMEOUT_def)
  from 1 2 3 4 5 6 7 8 9 show ?thesis by simp
qed

text \<open>
  C5 as it is stated fails: a path that passes the containment check and does not exist
  is not always returned. On \<open>slow_host\<close> the path \<open>/sandbox/new\<close> passes the check,
  \<open>fs.stat\<close> rejects it, the walk finds \<open>/sandbox\<close> and the operation is fulfilled
  with the path after fifteen seconds; \<open>validatePath\<close> has returned the timed-out
  result by then.
\<close>

theorem timeout_on_a_slow_file_system:
  "isAllowed posix [''/sandbox''] (absolute posix slow_host ''/sandbox/new'')
   \<and> fs_stat slow_host (absolute posix slow_host ''/sandbox/new'') = Inl ENOENT
   \<and> validateParentDirectories posix slow_host (absolute posix slow_host ''/sandbox/new'')
       = Some True
   \<and> validationOperation posix slow_host [''/sandbox''] ''/sandbox/new''
       = Some (15000, Resolved ''/sandbox/new'')
   \<and> validatePath posix slow_host [''/sandbox''] ''/sandbox/new'' = TimedOut ''/sandbox/new'' 10000
   \<and> validatePath posix slow_host [''/sandbox''] ''/sandbox/new'' \<noteq> Resolved ''/sandbox/new''"
proof -
  have a: "absolute posix slow_host ''/sandbox/new'' = ''/sandbox/new''"
    by (simp add: fs_defs slow_host_def)
  have al: "isAllowed posix [''/sandbox''] ''/sandbox/new''"
    by (simp add: fs_defs)
  have st: "fs_stat slow_host ''/sandbox/new'' = Inl ENOENT"
    by (simp add: fs_defs slow_host_def)
  have ms: "fs_settled_ms slow_host ''/sandbox/new'' = 15000"
    by (simp add: slow_host_def)
  have w: "validateParentDirectories posix slow_host ''/sandbox/new'' = Some True"
    by (rule validateParentDirectories_found [where resolved = "''/sandbox''"])
       (simp_all add: posix_def posix_dirname_examples slow_host_def sandbox_host_def
          sandbox_exists_def)
  have "validationOperation posix slow_host [''/sandbox''] ''/sandbox/new''
          = map_option (\<lambda>found. (fs_settled_ms slow_host ''/sandbox/new'', Resolved ''/sandbox/new''))
              (validateParentDirectories posix slow_host ''/sandbox/new'')"
    using validationOperation_walk [of posix "[''/sandbox'']" slow_host "''/sandbox/new''" ENOENT]
      al st by (simp only: a)
  then have op: "validationOperation posix slow_host [''/sandbox''] ''/sandbox/new''
          = Some (15000, Resolved ''/sandbox/new'')"
    by (simp add: w ms)
  have v: "validatePath posix slow_host [''/sandbox''] ''/sandbox/new'' = TimedOut ''/sandbox/new'' 10000"
    by (simp add: validatePath_def withTimeout_def op PATH_VALIDATION_TIMEOUT_def)
  from a al st w op v show ?thesis by simp
qed

section \<open>Denial and timeout as results\<close>

text \<open>
  C4. \<open>validatePath\<close> has three kinds of result and no other way to end: a validated
  path, the access-denied result for the absolute path, and the timed-out result for
  the requested path with the budget of 10000 milliseconds. A path outside the allowed
  directories gets the access-denied result. A path inside them gets the timed-out
  result when the file system calls do not settle before the budget has passed, and
  also when the validation operation never settles at all. Every rejection of
  \<open>fs.stat\<close> and \<open>fs.realpath\<close> is caught inside the operation.
\<close>

theorem denial_and_timeout_are_results:
  "(\<not> isAllowed path allowedDirectories (absolute path h requestedPath)
      \<longrightarrow> validatePath path h allowedDirectories requestedPath
           = AccessDenied (absolute path h requestedPath))
   \<and> (isAllowed path allowedDirectories (absolute path h requestedPath)
      \<and> \<not> fs_settled_ms h (absolute path h requestedPath) < enat PATH_VALIDATION_TIMEOUT
      \<longrightarrow> validatePath path h allowedDirectories requestedPath
           = TimedOut requestedPath PATH_VALIDATION_TIMEOUT)
   \<and> (validationOperation path h allowedDirectories requestedPath = None
      \<longrightarrow> validatePath path h allowedDirectories requestedPath
           = TimedOut requestedPath PATH_VALIDATION_TIMEOUT)
   \<and> PATH_VALIDATION_TIMEOUT = 10000
   \<and> ((\<exists>resolved. validatePath path h allowedDirectories requestedPath = Resolved resolved)
      \<or> validatePath path h allowedDirectories requestedPath
          = AccessDenied (absolute path h requestedPath)
      \<or> validatePath path h allowedDirectories requestedPath = TimedOut requestedPath 10000)"
  using validatePath_denied[of path allowedDirectories h requestedPath]
    validatePath_timeout[of path allowedDirectories h requestedPath]
    validatePath_never_settles[of path h allowedDirectories requestedPath]
    validatePath_outcomes[of path h allowedDirectories requestedPath]
  by (simp add: PATH_VALIDATION_TIMEOUT_def)

text \<open>On the host whose file system never answers, an allowed path times out and a
  path outside \<open>/sandbox\<close> is still denied.\<close>

theorem denial_and_timeout_are_results_witness:
  "validatePath posix stalled_host [''/sandbox''] ''/sandbox/link'' = TimedOut ''/sandbox/link'' 10000
   \<and> validatePath posix stalled_host [''/sandbox''] ''/etc/passwd'' = AccessDenied ''/etc/passwd''"
proof -
  note t = denial_and_timeout_are_results [where path = posix and h = stalled_host
      and allowedDirectories = "[''/sandbox'']"]
  have a: "absolute posix stalled_host ''/sandbox/link'' = ''/sandbox/link''"
    "absolute posix stalled_host ''/etc/passwd'' = ''/etc/passwd''"
    by (simp_all add: fs_defs stalled_host_def)
  have al: "isAllowed posix [''/sandbox''] ''/sandbox/link''"
    "\<not> isAllowed posix [''/sandbox''] ''/etc/passwd''"
    by (simp_all add: fs_defs stalled_host_def)
  have ms: "\<not> fs_settled_ms stalled_host ''/sandbox/link'' < enat PATH_VALIDATION_TIMEOUT"
    by (simp add: fs_defs stalled_host_def)
  from t [where requestedPath = "''/sandbox/link''"] a al ms
  have 1: "validatePath posix stalled_host [''/sandbox''] ''/sandbox/link''
           = TimedOut ''/sandbox/link'' 10000"
    by simp
  from t [where requestedPath = "''/etc/passwd''"] a al
  have 2: "validatePath posix stalled_host [''/sandbox''] ''/etc/passwd'' = AccessDenied ''/etc/passwd''"
    by simp
  from 1 2 show ?thesis by simp
qed

end
